theory Spec2Isabelle
  imports Main "HOL-Library.Word"
begin

section \<open>The LRU-K replacer of \<open>src/buffer/lru_k_replacer.cpp\<close>\<close>

subsection \<open>Data model\<close>

text \<open>
  Modelled from the spec: the headers that declare the class, \<open>frame_id_t\<close> and \<open>k_time\<close>
  (\<open>buffer/lru_k_replacer.h\<close> and BusTub's \<open>common/config.h\<close>) are not among the sources.
  The spec calls a frame identifier an integer handle that may be negative, and the code
  casts the \<open>size_t\<close> capacity to \<open>frame_id_t\<close> before comparing. A frame id is taken as
  BusTub declares it, a signed 32-bit integer (a word read with \<open>sint\<close>); a \<open>size_t\<close> is a
  natural number below \<open>2 ^ 64\<close>, with the wrap-around of \<open>++\<close> and \<open>--\<close> written out;
  \<open>k_time\<close> is the pair of a frame id and a timestamp that the code builds at lines 74 and
  85 and reads with \<open>.first\<close> and \<open>.second\<close>.
\<close>

type_synonym frame_id_t = "32 word"

type_synonym k_time = "frame_id_t \<times> nat"

definition size_incr :: "nat \<Rightarrow> nat" where
  "size_incr x = (x + 1) mod 2 ^ 64"

definition size_decr :: "nat \<Rightarrow> nat" where
  "size_decr x = (x + 2 ^ 64 - 1) mod 2 ^ 64"

text \<open>
  Modelled from the spec: the members of the class are declared in the missing header.
  They are given the names the code uses, without the trailing underscore (\<open>k_val\<close> is
  \<open>k_\<close>), and the types that the code's use of them needs. The three maps that the code
  reads only with \<open>operator[]\<close> (\<open>recorded_cnt\<close>, \<open>hist\<close>, \<open>evictable\<close>) are total
  functions: \<open>operator[]\<close> on a missing key inserts the value-initialised entry (\<open>0\<close>,
  the empty list, \<open>false\<close>) and returns it, so that no call can tell a missing key from a
  key that holds this value. \<open>new_frame\<close> and \<open>cache_frame\<close> are the two \<open>std::list\<close>s,
  front first. \<open>new_locate\<close> and \<open>cache_locate\<close> map a frame to the iterator of its node
  in the respective list; the model keeps their key sets and takes the node that a stored
  iterator points to as the first node of that frame in the list. This is the node itself
  as long as a list holds no frame twice, which is part of the invariant \<open>replacer_inv\<close>
  below.
\<close>

record replacer =
  replacer_size :: nat
  k_val :: nat
  current_timestamp :: nat
  curr_size :: nat
  recorded_cnt :: "frame_id_t \<Rightarrow> nat"
  hist :: "frame_id_t \<Rightarrow> nat list"
  evictable :: "frame_id_t \<Rightarrow> bool"
  new_frame :: "frame_id_t list"
  new_locate :: "frame_id_t set"
  cache_frame :: "k_time list"
  cache_locate :: "frame_id_t set"

text \<open>
  How a call ends: it returns, it throws \<open>std::exception\<close> (the only exception the code
  throws, for an invalid frame and for a frame that is not evictable alike), or it
  reaches undefined behaviour of the standard library (erasing through an iterator that a
  locate map does not hold, \<open>front()\<close> of an empty list, \<open>std::upper_bound\<close> on a range
  that is not partitioned). Each operation returns this outcome with the state at that
  point.
\<close>

datatype outcome = Returned | Threw | Undefined

text \<open>
  Modelled from the spec: the default member initialisers of \<open>current_timestamp\<close> and
  \<open>curr_size\<close> are in the missing header; the logical clock and the size start at \<open>0\<close>.
  The constructor of line 17 stores the capacity and \<open>k\<close>; the containers start empty.
\<close>

definition LRUKReplacer :: "nat \<Rightarrow> nat \<Rightarrow> replacer" where
  "LRUKReplacer num_frames k =
     \<lparr>replacer_size = num_frames, k_val = k, current_timestamp = 0, curr_size = 0,
      recorded_cnt = (\<lambda>_. 0), hist = (\<lambda>_. []), evictable = (\<lambda>_. False),
      new_frame = [], new_locate = {}, cache_frame = [], cache_locate = {}\<rparr>"

definition Size :: "replacer \<Rightarrow> nat" where
  "Size s = curr_size s"

definition CmpTimestamp :: "k_time \<Rightarrow> k_time \<Rightarrow> bool" where
  "CmpTimestamp f1 f2 = (snd f1 < snd f2)"

text \<open>
  The guard \<open>frame_id > static_cast<frame_id_t>(replacer_size)\<close> of lines 55, 95 and 114:
  the capacity is truncated to 32 bits and both sides are compared as signed integers.
\<close>

definition frame_too_large :: "replacer \<Rightarrow> frame_id_t \<Rightarrow> bool" where
  "frame_too_large s frame_id =
     (sint (word_of_nat (replacer_size s) :: frame_id_t) < sint frame_id)"

subsection \<open>List operations of the standard library\<close>

text \<open>
  \<open>std::upper_bound(first, last, value, comp)\<close> needs the range partitioned with
  respect to \<open>comp(value, e)\<close> (every element for which it is false before every element
  for which it is true) and returns the position of the first element for which it is
  true. \<open>list.insert(pos, value)\<close> puts the value before that position.
\<close>

fun upper_bound :: "k_time list \<Rightarrow> k_time \<Rightarrow> nat" where
  "upper_bound [] v = 0"
| "upper_bound (e # es) v = (if CmpTimestamp v e then 0 else Suc (upper_bound es v))"

definition partitioned :: "k_time list \<Rightarrow> k_time \<Rightarrow> bool" where
  "partitioned es v = list_all (CmpTimestamp v) (drop (upper_bound es v) es)"

definition list_insert :: "nat \<Rightarrow> 'a \<Rightarrow> 'a list \<Rightarrow> 'a list" where
  "list_insert pos v xs = take pos xs @ v # drop pos xs"

text \<open>Erasing the first node that satisfies a test, the rest of the list kept in order.\<close>

fun erase_first :: "('a \<Rightarrow> bool) \<Rightarrow> 'a list \<Rightarrow> 'a list" where
  "erase_first P [] = []"
| "erase_first P (x # xs) = (if P x then xs else x # erase_first P xs)"

subsection \<open>Evict (lines 19 to 51)\<close>

text \<open>
  Both scans return at the first frame whose evictable flag is set: the first runs over
  \<open>new_frame\<close> from \<open>rbegin()\<close>, that is from the back, the second over \<open>cache_frame\<close> from
  the front. \<open>new_frame.remove(frame)\<close> removes every node equal to \<open>frame\<close>;
  \<open>cache_frame.erase(it)\<close> removes the node the scan stands on. The result is the value
  written to \<open>*frame_id\<close> (\<open>None\<close> when the function returns \<open>false\<close>) and the state.
\<close>

definition retire :: "replacer \<Rightarrow> frame_id_t \<Rightarrow> replacer" where
  "retire s frame =
     s\<lparr>recorded_cnt := (recorded_cnt s)(frame := 0),
       curr_size := size_decr (curr_size s),
       hist := (hist s)(frame := [])\<rparr>"

definition Evict :: "replacer \<Rightarrow> frame_id_t option \<times> replacer" where
  "Evict s =
     (if Size s = 0 then (None, s)
      else case find (evictable s) (rev (new_frame s)) of
        Some frame \<Rightarrow>
          (Some frame,
           retire (s\<lparr>new_locate := new_locate s - {frame},
                     new_frame := removeAll frame (new_frame s)\<rparr>) frame)
      | None \<Rightarrow>
          (case find (\<lambda>e. evictable s (fst e)) (cache_frame s) of
             Some e \<Rightarrow>
               (Some (fst e),
                retire (s\<lparr>cache_frame := erase_first (\<lambda>e. evictable s (fst e)) (cache_frame s),
                          cache_locate := cache_locate s - {fst e}\<rparr>) (fst e))
           | None \<Rightarrow> (None, s)))"

subsection \<open>RecordAccess (lines 53 to 91)\<close>

text \<open>
  Lines 73 to 77 and 84 to 88, the same in both branches: the frame is inserted into
  \<open>cache_frame\<close> at the upper bound of the front of its history.
\<close>

definition cache_insert :: "replacer \<Rightarrow> frame_id_t \<Rightarrow> outcome \<times> replacer" where
  "cache_insert s frame_id =
     (case hist s frame_id of
        [] \<Rightarrow> (Undefined, s)
      | kth_time # _ \<Rightarrow>
          let new_cache = (frame_id, kth_time) in
          if \<not> partitioned (cache_frame s) new_cache then (Undefined, s)
          else (Returned,
                s\<lparr>cache_frame :=
                    list_insert (upper_bound (cache_frame s) new_cache) new_cache (cache_frame s),
                  cache_locate := insert frame_id (cache_locate s)\<rparr>))"

definition RecordAccess :: "replacer \<Rightarrow> frame_id_t \<Rightarrow> outcome \<times> replacer" where
  "RecordAccess s frame_id =
     (if frame_too_large s frame_id then (Threw, s)
      else
        let ts = size_incr (current_timestamp s);
            count = size_incr (recorded_cnt s frame_id);
            s1 = s\<lparr>current_timestamp := ts,
                   recorded_cnt := (recorded_cnt s)(frame_id := count),
                   hist := (hist s)(frame_id := hist s frame_id @ [ts])\<rparr>;
            s2 = (if count = 1
                  then s1\<lparr>evictable := (evictable s1)(frame_id := True),
                          curr_size := size_incr (curr_size s1),
                          new_frame := frame_id # new_frame s1,
                          new_locate := insert frame_id (new_locate s1)\<rparr>
                  else s1)
        in
          if count = k_val s2 then
            (if frame_id \<notin> new_locate s2 then (Undefined, s2)
             else cache_insert
                    (s2\<lparr>new_frame := remove1 frame_id (new_frame s2),
                        new_locate := new_locate s2 - {frame_id}\<rparr>) frame_id)
          else if count > k_val s2 then
            (let s3 = s2\<lparr>hist := (hist s2)(frame_id := tl (hist s2 frame_id))\<rparr> in
             if frame_id \<notin> cache_locate s3 then (Undefined, s3)
             else cache_insert
                    (s3\<lparr>cache_frame :=
                          erase_first (\<lambda>e. fst e = frame_id) (cache_frame s3)\<rparr>) frame_id)
          else (Returned, s2))"

subsection \<open>SetEvictable (lines 93 to 110)\<close>

definition SetEvictable :: "replacer \<Rightarrow> frame_id_t \<Rightarrow> bool \<Rightarrow> outcome \<times> replacer" where
  "SetEvictable s frame_id set_evictable =
     (if frame_too_large s frame_id then (Threw, s)
      else if evictable s frame_id = set_evictable \<or> recorded_cnt s frame_id = 0
      then (Returned, s)
      else
        let s1 = s\<lparr>evictable := (evictable s)(frame_id := set_evictable)\<rparr> in
        if set_evictable then (Returned, s1\<lparr>curr_size := size_incr (curr_size s1)\<rparr>)
        else (Returned, s1\<lparr>curr_size := size_decr (curr_size s1)\<rparr>))"

subsection \<open>Remove (lines 112 to 134)\<close>

definition Remove :: "replacer \<Rightarrow> frame_id_t \<Rightarrow> outcome \<times> replacer" where
  "Remove s frame_id =
     (if frame_too_large s frame_id \<or> \<not> evictable s frame_id then (Threw, s)
      else
        let count = recorded_cnt s frame_id in
        if count = 0 then (Returned, s)
        else if count < k_val s then
          (if frame_id \<notin> new_locate s then (Undefined, s)
           else (Returned,
                 retire (s\<lparr>new_frame := remove1 frame_id (new_frame s),
                           new_locate := new_locate s - {frame_id}\<rparr>) frame_id))
        else
          (if frame_id \<notin> cache_locate s then (Undefined, s)
           else (Returned,
                 retire (s\<lparr>cache_frame :=
                             erase_first (\<lambda>e. fst e = frame_id) (cache_frame s),
                           cache_locate := cache_locate s - {frame_id}\<rparr>) frame_id)))"

subsection \<open>Sequences of calls\<close>

text \<open>
  A caller's calls, one after the other on the same replacer. A call that throws is
  followed by the next call on the state the throwing call left; a call that reaches
  undefined behaviour ends the run without a state.
\<close>

datatype call =
    CallRecordAccess frame_id_t
  | CallSetEvictable frame_id_t bool
  | CallEvict
  | CallRemove frame_id_t

fun perform :: "replacer \<Rightarrow> call \<Rightarrow> outcome \<times> replacer" where
  "perform s (CallRecordAccess frame_id) = RecordAccess s frame_id"
| "perform s (CallSetEvictable frame_id b) = SetEvictable s frame_id b"
| "perform s CallEvict = (Returned, snd (Evict s))"
| "perform s (CallRemove frame_id) = Remove s frame_id"

fun run :: "replacer \<Rightarrow> call list \<Rightarrow> replacer option" where
  "run s [] = Some s"
| "run s (c # cs) =
     (case perform s c of
        (Undefined, _) \<Rightarrow> None
      | (_, s') \<Rightarrow> run s' cs)"

subsection \<open>The invariant of the reachable states\<close>

text \<open>
  What every state reached from the constructor satisfies as long as the logical clock has
  not wrapped around: the two lists hold no frame twice; \<open>new_frame\<close> holds the frames
  with a count from \<open>1\<close> to \<open>k - 1\<close> and \<open>cache_frame\<close> those with a count of at least
  \<open>k\<close>; the locate maps hold the frames of their lists; \<open>curr_size\<close> counts the listed
  frames whose flag is set; a history is as long as the smaller of the count and \<open>k\<close>;
  an entry of \<open>cache_frame\<close> carries the front of its frame's history, and the entries
  are in ascending order of it; no count and no number of listed frames exceeds the clock.
  \<open>tracked\<close> is the frames of \<open>new_frame\<close> followed by those of \<open>cache_frame\<close>.
\<close>

definition tracked :: "replacer \<Rightarrow> frame_id_t list" where
  "tracked s = new_frame s @ map fst (cache_frame s)"

definition replacer_inv :: "replacer \<Rightarrow> bool" where
  "replacer_inv s \<longleftrightarrow>
     1 \<le> k_val s \<and>
     distinct (tracked s) \<and>
     (\<forall>f. f \<in> set (new_frame s) \<longleftrightarrow> 0 < recorded_cnt s f \<and> recorded_cnt s f < k_val s) \<and>
     (\<forall>f. f \<in> fst ` set (cache_frame s) \<longleftrightarrow> k_val s \<le> recorded_cnt s f) \<and>
     new_locate s = set (new_frame s) \<and>
     cache_locate s = fst ` set (cache_frame s) \<and>
     curr_size s = length (filter (evictable s) (tracked s)) \<and>
     (\<forall>f. length (hist s f) = min (recorded_cnt s f) (k_val s)) \<and>
     (\<forall>e \<in> set (cache_frame s). snd e = hd (hist s (fst e))) \<and>
     sorted (map snd (cache_frame s)) \<and>
     (\<forall>f. recorded_cnt s f \<le> current_timestamp s) \<and>
     length (tracked s) \<le> current_timestamp s \<and>
     current_timestamp s < 2 ^ 64"

text \<open>
  The state after the frame \<open>f\<close>, listed and with its flag set, has been retired by
  \<open>Evict\<close> or \<open>Remove\<close>: all of its bookkeeping is gone and the size is one less.
\<close>

definition retired :: "replacer \<Rightarrow> frame_id_t \<Rightarrow> replacer" where
  "retired s f =
     s\<lparr>new_frame := filter (\<lambda>y. y \<noteq> f) (new_frame s),
       new_locate := new_locate s - {f},
       cache_frame := filter (\<lambda>e. fst e \<noteq> f) (cache_frame s),
       cache_locate := cache_locate s - {f},
       recorded_cnt := (recorded_cnt s)(f := 0),
       hist := (hist s)(f := []),
       curr_size := curr_size s - 1\<rparr>"

text \<open>
  The frames in the order in which the two scans of \<open>Evict\<close> visit them: \<open>new_frame\<close> from
  the back, then \<open>cache_frame\<close> from the front.
\<close>

definition evict_order :: "replacer \<Rightarrow> frame_id_t list" where
  "evict_order s = rev (new_frame s) @ map fst (cache_frame s)"

text \<open>
  The state after \<open>RecordAccess\<close> of a frame that passes the guard, on a state that
  satisfies the invariant and whose clock does not wrap (\<open>RecordAccess_inv_eq\<close> below):
  with \<open>c\<close> the new count, the frame is pushed on \<open>new_frame\<close> when \<open>c = 1\<close>, it is off
  \<open>new_frame\<close> and inserted in \<open>cache_frame\<close> at the upper bound of the front of its history
  when \<open>c \<ge> k\<close>, and the history has lost its oldest entry when \<open>c > k\<close>.
\<close>

definition accessed :: "replacer \<Rightarrow> frame_id_t \<Rightarrow> replacer" where
  "accessed s f =
     (let ts = current_timestamp s + 1;
          c = recorded_cnt s f + 1;
          h = (if k_val s < c then tl (hist s f @ [ts]) else hist s f @ [ts]);
          rest = filter (\<lambda>e. fst e \<noteq> f) (cache_frame s)
      in s\<lparr>current_timestamp := ts,
           recorded_cnt := (recorded_cnt s)(f := c),
           hist := (hist s)(f := h),
           evictable := (if c = 1 then (evictable s)(f := True) else evictable s),
           curr_size := (if c = 1 then curr_size s + 1 else curr_size s),
           new_frame := (if c < k_val s then (if c = 1 then f # new_frame s else new_frame s)
                         else filter (\<lambda>y. y \<noteq> f) (new_frame s)),
           new_locate := (if c < k_val s then insert f (new_locate s) else new_locate s - {f}),
           cache_frame := (if c < k_val s then cache_frame s
                           else list_insert (upper_bound rest (f, hd h)) (f, hd h) rest),
           cache_locate := (if c < k_val s then cache_locate s
                            else insert f (cache_locate s))\<rparr>)"

text \<open>Every frame with a positive count has passed the guard of \<open>RecordAccess\<close>.\<close>

definition frames_valid :: "replacer \<Rightarrow> bool" where
  "frames_valid s \<longleftrightarrow> (\<forall>f. 0 < recorded_cnt s f \<longrightarrow> \<not> frame_too_large s f)"

subsection \<open>The accesses a caller has made\<close>

text \<open>
  The access histories as the spec words them, kept beside the replacer and read from the
  calls alone: the logical tick counts the \<open>RecordAccess\<close> calls that returned, and the log of
  a frame holds the ticks of its accesses, oldest first, since the frame was last evicted
  or removed (since the construction, if it never was). \<open>log_call\<close> looks only at how the
  call ended: whether \<open>RecordAccess\<close> or \<open>Remove\<close> returned, and which frame \<open>Evict\<close> gave.
  With \<open>n\<close> accesses in the log of a frame, its first entry is the tick at which the frame
  entered the Early Set, and entry \<open>n - k\<close> is its Kth most recent access, the Kth-back
  timestamp.
\<close>

type_synonym access_log = "frame_id_t \<Rightarrow> nat list"

fun log_call :: "replacer \<Rightarrow> call \<Rightarrow> nat \<times> access_log \<Rightarrow> nat \<times> access_log" where
  "log_call s (CallRecordAccess f) (t, L) =
     (if fst (RecordAccess s f) = Returned then (t + 1, L(f := L f @ [t + 1])) else (t, L))"
| "log_call s (CallSetEvictable f b) (t, L) = (t, L)"
| "log_call s CallEvict (t, L) =
     (case fst (Evict s) of Some f \<Rightarrow> (t, L(f := [])) | None \<Rightarrow> (t, L))"
| "log_call s (CallRemove f) (t, L) =
     (if fst (Remove s f) = Returned then (t, L(f := [])) else (t, L))"

fun logged :: "replacer \<Rightarrow> nat \<times> access_log \<Rightarrow> call list \<Rightarrow> nat \<times> access_log" where
  "logged s g [] = g"
| "logged s g (c # cs) = logged (snd (perform s c)) (log_call s c g) cs"

text \<open>The logs after the calls \<open>cs\<close> on a replacer constructed with \<open>n\<close> and \<open>k\<close>.\<close>

definition accesses :: "nat \<Rightarrow> nat \<Rightarrow> call list \<Rightarrow> access_log" where
  "accesses n k cs = snd (logged (LRUKReplacer n k) (0, \<lambda>_. []) cs)"

text \<open>
  How a reachable state and the logs agree: the clock is the tick, a count is the length of
  the log, a history is the last \<open>k\<close> entries of the log, a log is strictly ascending and
  no entry is beyond the tick, no tick is in two logs, and \<open>new_frame\<close> is in descending
  order of the first entries of the logs of its frames.
\<close>

definition log_inv :: "replacer \<Rightarrow> nat \<times> access_log \<Rightarrow> bool" where
  "log_inv s g \<longleftrightarrow>
     current_timestamp s = fst g \<and>
     (\<forall>f. recorded_cnt s f = length (snd g f)) \<and>
     (\<forall>f. hist s f = drop (length (snd g f) - k_val s) (snd g f)) \<and>
     (\<forall>f. sorted_wrt (<) (snd g f)) \<and>
     (\<forall>f. \<forall>x \<in> set (snd g f). x \<le> fst g) \<and>
     (\<forall>f f'. f \<noteq> f' \<longrightarrow> set (snd g f) \<inter> set (snd g f') = {}) \<and>
     sorted_wrt (>) (map (\<lambda>f. hd (snd g f)) (new_frame s))"

section \<open>Properties\<close>

subsection \<open>Counters without wrap-around\<close>

lemma size_incr_eq: "x + 1 < 2 ^ 64 \<Longrightarrow> size_incr x = x + 1"
  by (simp add: size_incr_def)

lemma size_decr_eq: "0 < x \<Longrightarrow> x < 2 ^ 64 \<Longrightarrow> size_decr x = x - 1"
proof -
  assume a: "0 < x" "x < 2 ^ 64"
  then have e: "x + 2 ^ 64 - 1 = (x - 1) + 2 ^ 64" by simp
  have "size_decr x = ((x - 1) + 2 ^ 64) mod 2 ^ 64"
    unfolding size_decr_def e ..
  also have "\<dots> = (x - 1) mod 2 ^ 64" by (rule mod_add_self2)
  also have "\<dots> = x - 1" using a by (intro mod_less) arith
  finally show ?thesis .
qed

subsection \<open>Erasing and inserting in the lists\<close>

lemma set_take_drop: "set (take i xs) \<union> set (drop i xs) = set xs"
  by (metis append_take_drop_id set_append)

lemma set_list_insert: "set (list_insert i v xs) = insert v (set xs)"
  using set_take_drop [of i xs] by (auto simp: list_insert_def)

lemma length_list_insert: "length (list_insert i v xs) = Suc (length xs)"
  by (simp add: list_insert_def)

lemma filter_list_insert:
  "length (filter P (list_insert i v xs)) = (if P v then 1 else 0) + length (filter P xs)"
proof -
  have "length (filter P (take i xs)) + length (filter P (drop i xs)) = length (filter P xs)"
    by (metis append_take_drop_id filter_append length_append)
  then show ?thesis by (simp add: list_insert_def)
qed

lemma distinct_list_insert:
  "distinct (map fst (list_insert i v xs)) \<longleftrightarrow> fst v \<notin> fst ` set xs \<and> distinct (map fst xs)"
proof -
  have d: "distinct (map fst (take i xs) @ map fst (drop i xs)) = distinct (map fst xs)"
    by (metis append_take_drop_id map_append)
  have s: "fst ` set (take i xs) \<union> fst ` set (drop i xs) = fst ` set xs"
    by (metis set_take_drop image_Un)
  have "distinct (map fst (list_insert i v xs)) \<longleftrightarrow>
        fst v \<notin> fst ` set (take i xs) \<union> fst ` set (drop i xs) \<and>
        distinct (map fst (take i xs) @ map fst (drop i xs))"
    unfolding list_insert_def by (simp del: append_take_drop_id) blast
  then show ?thesis unfolding d s .
qed

lemma list_insert_upper_bound:
  "list_insert (upper_bound es v) v es =
     takeWhile (\<lambda>e. snd e \<le> snd v) es @ v # dropWhile (\<lambda>e. snd e \<le> snd v) es"
  by (induction es) (simp_all add: list_insert_def CmpTimestamp_def not_less)

lemma sorted_partitioned: "sorted (map snd es) \<Longrightarrow> partitioned es v"
proof (induction es)
  case Nil
  then show ?case by (simp add: partitioned_def)
next
  case (Cons a es)
  show ?case
  proof (cases "CmpTimestamp v a")
    case True
    with Cons.prems have "\<forall>e \<in> set es. snd v < snd e"
      by (auto simp: CmpTimestamp_def)
    with True show ?thesis
      by (simp add: partitioned_def list_all_iff CmpTimestamp_def)
  next
    case False
    with Cons show ?thesis by (simp add: partitioned_def)
  qed
qed

lemma sorted_upper_insert:
  "sorted (map snd es) \<Longrightarrow> sorted (map snd (list_insert (upper_bound es v) v es))"
proof (induction es)
  case Nil
  then show ?case by (simp add: list_insert_def)
next
  case (Cons a es)
  show ?case
  proof (cases "CmpTimestamp v a")
    case True
    with Cons.prems have "\<forall>e \<in> set es. snd v \<le> snd e"
      by (auto simp: CmpTimestamp_def)
    with True Cons.prems show ?thesis
      by (simp add: list_insert_def CmpTimestamp_def)
  next
    case False
    have s: "set (take (upper_bound es v) es) \<union> set (drop (upper_bound es v) es) = set es"
      by (rule set_take_drop)
    from False have "snd a \<le> snd v" by (simp add: CmpTimestamp_def)
    moreover from Cons have "sorted (map snd (list_insert (upper_bound es v) v es))" by simp
    moreover from Cons.prems have "\<forall>e \<in> set es. snd a \<le> snd e" by simp
    ultimately show ?thesis using False s
      by (auto simp: list_insert_def)
  qed
qed

lemma erase_first_key:
  "distinct (map fst es) \<Longrightarrow> erase_first (\<lambda>e. fst e = f) es = filter (\<lambda>e. fst e \<noteq> f) es"
proof (induction es)
  case Nil
  then show ?case by simp
next
  case (Cons a es)
  show ?case
  proof (cases "fst a = f")
    case True
    with Cons.prems have "\<forall>e \<in> set es. fst e \<noteq> f" by (auto simp: image_iff)
    then have "filter (\<lambda>e. fst e \<noteq> f) es = es" by (simp add: filter_id_conv)
    with True show ?thesis by simp
  next
    case False
    with Cons show ?thesis by simp
  qed
qed

lemma erase_first_found:
  "find (\<lambda>e. P (fst e)) es = Some e \<Longrightarrow> distinct (map fst es) \<Longrightarrow>
   erase_first (\<lambda>e. P (fst e)) es = filter (\<lambda>x. fst x \<noteq> fst e) es"
proof (induction es)
  case Nil
  then show ?case by simp
next
  case (Cons a es)
  show ?case
  proof (cases "P (fst a)")
    case True
    with Cons.prems have ae: "a = e" by simp
    with Cons.prems have "\<forall>x \<in> set es. fst x \<noteq> fst e" by (auto simp: image_iff)
    then have "filter (\<lambda>x. fst x \<noteq> fst e) es = es" by (simp add: filter_id_conv)
    with True ae show ?thesis by simp
  next
    case False
    with Cons.prems have f: "find (\<lambda>e. P (fst e)) es = Some e" by simp
    then have "e \<in> set es" by (auto simp: find_Some_iff)
    with Cons.prems have "fst a \<noteq> fst e" by (auto simp: image_iff)
    with False f Cons show ?thesis by simp
  qed
qed

lemma remove1_filter: "distinct xs \<Longrightarrow> remove1 x xs = filter (\<lambda>y. y \<noteq> x) xs"
  by (simp add: distinct_remove1_removeAll removeAll_filter_not_eq) metis

lemma removeAll_filter: "removeAll x xs = filter (\<lambda>y. y \<noteq> x) xs"
  by (simp add: removeAll_filter_not_eq) metis

subsection \<open>Counting the evictable frames\<close>


lemma count_upd:
  "distinct xs \<Longrightarrow>
   length (filter (P(f := b)) xs) + (if f \<in> set xs \<and> P f then 1 else 0) =
   length (filter P xs) + (if f \<in> set xs \<and> b then 1 else 0)"
  by (induction xs) auto

lemma count_remove:
  "distinct xs \<Longrightarrow>
   length (filter P (filter (\<lambda>y. y \<noteq> f) xs)) + (if f \<in> set xs \<and> P f then 1 else 0) =
   length (filter P xs)"
  by (induction xs) auto

lemma replacer_inv_init: "1 \<le> k \<Longrightarrow> replacer_inv (LRUKReplacer n k)"
  by (simp add: replacer_inv_def LRUKReplacer_def tracked_def)

lemma set_tracked: "set (tracked s) = set (new_frame s) \<union> fst ` set (cache_frame s)"
  by (simp add: tracked_def)

lemma inv_SetEvictable:
  assumes inv: "replacer_inv s" and r: "SetEvictable s f b = (oc, s')"
  shows "oc \<noteq> Undefined \<and> replacer_inv s' \<and> current_timestamp s' = current_timestamp s"
proof (cases "frame_too_large s f \<or> evictable s f = b \<or> recorded_cnt s f = 0")
  case True
  with r have "s' = s" "oc \<noteq> Undefined" by (auto simp: SetEvictable_def split: if_splits)
  with inv show ?thesis by simp
next
  case False
  then have ne: "evictable s f \<noteq> b" and pos: "0 < recorded_cnt s f" by auto
  from inv have k: "1 \<le> k_val s"
    and dn: "distinct (tracked s)"
    and mn: "\<And>f. f \<in> set (new_frame s) \<longleftrightarrow> 0 < recorded_cnt s f \<and> recorded_cnt s f < k_val s"
    and mc: "\<And>f. f \<in> fst ` set (cache_frame s) \<longleftrightarrow> k_val s \<le> recorded_cnt s f"
    and sz: "curr_size s = length (filter (evictable s) (tracked s))"
    and ln: "length (tracked s) \<le> current_timestamp s"
    and ts: "current_timestamp s < 2 ^ 64"
    unfolding replacer_inv_def by blast+
  let ?ev = "(evictable s)(f := b)"
  let ?n = "length (filter ?ev (tracked s))"
  have mem: "f \<in> set (tracked s)"
    using pos mn [of f] mc [of f] unfolding set_tracked by auto
  have c1: "?n + (if evictable s f then 1 else 0) = curr_size s + (if b then 1 else 0)"
    using count_upd [OF dn, of "evictable s" f b] mem sz by simp
  have bound: "?n \<le> length (tracked s)"
    by (rule length_filter_le)
  have sz': "(if b then size_incr (curr_size s) else size_decr (curr_size s)) = ?n"
  proof (cases b)
    case True
    with c1 ne have "?n = curr_size s + 1" by simp
    moreover from this bound ln ts have "size_incr (curr_size s) = curr_size s + 1"
      by (intro size_incr_eq) arith
    ultimately show ?thesis using True by simp
  next
    case False
    with c1 ne have "?n + 1 = curr_size s" by simp
    moreover have "curr_size s \<le> length (tracked s)"
      unfolding sz by (rule length_filter_le)
    with calculation ln ts have "size_decr (curr_size s) = curr_size s - 1"
      by (intro size_decr_eq) arith+
    ultimately show ?thesis using False by simp
  qed
  from r False have s': "s' = s\<lparr>evictable := ?ev, curr_size := ?n\<rparr>" and oc: "oc = Returned"
    using sz' by (auto simp: SetEvictable_def Let_def split: if_splits)
  have tr: "tracked s' = tracked s" by (simp add: s' tracked_def)
  have "replacer_inv s'"
    using inv unfolding replacer_inv_def tr by (simp add: s')
  with oc s' show ?thesis by simp
qed

subsection \<open>Retiring a frame\<close>



lemma filter_key_map: "map fst (filter (\<lambda>e. fst e \<noteq> f) es) = filter (\<lambda>y. y \<noteq> f) (map fst es)"
  by (induction es) auto

lemma tracked_retired: "tracked (retired s f) = filter (\<lambda>y. y \<noteq> f) (tracked s)"
  by (simp add: tracked_def retired_def filter_key_map)

lemma inv_retired:
  assumes inv: "replacer_inv s" and mem: "f \<in> set (tracked s)" and ev: "evictable s f"
  shows "replacer_inv (retired s f)"
proof -
  from inv have k: "1 \<le> k_val s"
    and dn: "distinct (tracked s)"
    and mn: "\<And>f. f \<in> set (new_frame s) \<longleftrightarrow> 0 < recorded_cnt s f \<and> recorded_cnt s f < k_val s"
    and mc: "\<And>f. f \<in> fst ` set (cache_frame s) \<longleftrightarrow> k_val s \<le> recorded_cnt s f"
    and nl: "new_locate s = set (new_frame s)"
    and cl: "cache_locate s = fst ` set (cache_frame s)"
    and sz: "curr_size s = length (filter (evictable s) (tracked s))"
    and hl: "\<And>f. length (hist s f) = min (recorded_cnt s f) (k_val s)"
    and kt: "\<And>e. e \<in> set (cache_frame s) \<Longrightarrow> snd e = hd (hist s (fst e))"
    and so: "sorted (map snd (cache_frame s))"
    and ct: "\<And>f. recorded_cnt s f \<le> current_timestamp s"
    and ln: "length (tracked s) \<le> current_timestamp s"
    and ts: "current_timestamp s < 2 ^ 64"
    unfolding replacer_inv_def by blast+
  let ?s = "retired s f"
  have 1: "1 \<le> k_val ?s" using k by (simp add: retired_def)
  have 2: "distinct (tracked ?s)" using dn by (simp add: tracked_retired)
  have 3: "\<forall>g. g \<in> set (new_frame ?s) \<longleftrightarrow> 0 < recorded_cnt ?s g \<and> recorded_cnt ?s g < k_val ?s"
    using mn by (simp add: retired_def)
  have 4: "\<forall>g. g \<in> fst ` set (cache_frame ?s) \<longleftrightarrow> k_val ?s \<le> recorded_cnt ?s g"
  proof
    fix g
    have "fst ` set (filter (\<lambda>e. fst e \<noteq> f) (cache_frame s)) = fst ` set (cache_frame s) - {f}"
      by auto
    then show "g \<in> fst ` set (cache_frame ?s) \<longleftrightarrow> k_val ?s \<le> recorded_cnt ?s g"
      using mc [of g] k by (auto simp: retired_def)
  qed
  have 5: "new_locate ?s = set (new_frame ?s)" using nl by (auto simp: retired_def)
  have 6: "cache_locate ?s = fst ` set (cache_frame ?s)" using cl by (auto simp: retired_def)
  have 7: "curr_size ?s = length (filter (evictable ?s) (tracked ?s))"
  proof -
    have "evictable ?s = evictable s" "curr_size ?s = curr_size s - 1"
      by (simp_all add: retired_def)
    then show ?thesis
      using count_remove [OF dn, of "evictable s" f] mem ev sz by (simp add: tracked_retired)
  qed
  have 8: "\<forall>g. length (hist ?s g) = min (recorded_cnt ?s g) (k_val ?s)"
    using hl by (simp add: retired_def)
  have 9: "\<forall>e \<in> set (cache_frame ?s). snd e = hd (hist ?s (fst e))"
    using kt by (simp add: retired_def)
  have 10: "sorted (map snd (cache_frame ?s))"
    using so by (simp add: retired_def sorted_filter)
  have 11: "\<forall>g. recorded_cnt ?s g \<le> current_timestamp ?s"
    using ct by (simp add: retired_def)
  have "length (tracked ?s) \<le> length (tracked s)"
    unfolding tracked_retired by (rule length_filter_le)
  with ln have 12: "length (tracked ?s) \<le> current_timestamp ?s"
    by (simp add: retired_def)
  have 13: "current_timestamp ?s < 2 ^ 64" using ts by (simp add: retired_def)
  from 1 2 3 4 5 6 7 8 9 10 11 12 13 show ?thesis
    unfolding replacer_inv_def by blast
qed

lemma curr_size_pos:
  assumes inv: "replacer_inv s" and mem: "f \<in> set (tracked s)" and ev: "evictable s f"
  shows "0 < curr_size s \<and> curr_size s < 2 ^ 64"
proof -
  from inv have sz: "curr_size s = length (filter (evictable s) (tracked s))"
    and ln: "length (tracked s) \<le> current_timestamp s"
    and ts: "current_timestamp s < 2 ^ 64"
    unfolding replacer_inv_def by blast+
  from mem ev have "f \<in> set (filter (evictable s) (tracked s))" by simp
  then have "0 < length (filter (evictable s) (tracked s))" by (metis length_pos_if_in_set)
  then have p: "0 < curr_size s" by (simp only: sz)
  have "curr_size s \<le> length (tracked s)"
    unfolding sz by (rule length_filter_le)
  then have "curr_size s \<le> current_timestamp s" using ln by (rule le_trans)
  then have "curr_size s < 2 ^ 64" using ts by (rule le_less_trans)
  with p show ?thesis ..
qed

lemma retire_eq:
  assumes inv: "replacer_inv s" and mem: "f \<in> set (tracked s)" and ev: "evictable s f"
  shows "f \<in> set (new_frame s) \<Longrightarrow>
           retire (s\<lparr>new_frame := filter (\<lambda>y. y \<noteq> f) (new_frame s),
                     new_locate := new_locate s - {f}\<rparr>) f = retired s f"
    and "f \<in> fst ` set (cache_frame s) \<Longrightarrow>
           retire (s\<lparr>cache_frame := filter (\<lambda>e. fst e \<noteq> f) (cache_frame s),
                     cache_locate := cache_locate s - {f}\<rparr>) f = retired s f"
proof -
  from inv have dn: "distinct (tracked s)"
    and nl: "new_locate s = set (new_frame s)"
    and cl: "cache_locate s = fst ` set (cache_frame s)"
    unfolding replacer_inv_def by blast+
  from curr_size_pos [OF inv mem ev] have d: "size_decr (curr_size s) = curr_size s - 1"
    by (intro size_decr_eq) simp_all
  {
    assume "f \<in> set (new_frame s)"
    with dn have nc: "f \<notin> fst ` set (cache_frame s)" by (auto simp: tracked_def)
    then have "filter (\<lambda>e. fst e \<noteq> f) (cache_frame s) = cache_frame s"
      by (auto simp: filter_id_conv)
    moreover from nc cl have "cache_locate s - {f} = cache_locate s" by auto
    ultimately show "retire (s\<lparr>new_frame := filter (\<lambda>y. y \<noteq> f) (new_frame s),
                     new_locate := new_locate s - {f}\<rparr>) f = retired s f"
      using d by (simp add: retire_def retired_def)
  }
  {
    assume "f \<in> fst ` set (cache_frame s)"
    with dn have nc: "f \<notin> set (new_frame s)" by (auto simp: tracked_def)
    then have "filter (\<lambda>y. y \<noteq> f) (new_frame s) = new_frame s"
      by (auto simp: filter_id_conv)
    moreover from nc nl have "new_locate s - {f} = new_locate s" by auto
    ultimately show "retire (s\<lparr>cache_frame := filter (\<lambda>e. fst e \<noteq> f) (cache_frame s),
                     cache_locate := cache_locate s - {f}\<rparr>) f = retired s f"
      using d by (simp add: retire_def retired_def)
  }
qed

subsection \<open>Evict and Remove on a state that satisfies the invariant\<close>

lemma find_append_eq:
  "find P (xs @ ys) = (case find P xs of None \<Rightarrow> find P ys | Some x \<Rightarrow> Some x)"
  by (induction xs) simp_all

lemma find_map_fst:
  "find P (map fst es) = map_option fst (find (\<lambda>e. P (fst e)) es)"
  by (induction es) simp_all

lemma find_SomeD: "find P xs = Some x \<Longrightarrow> x \<in> set xs \<and> P x"
  by (induction xs) (auto split: if_splits)

lemma new_updates_commute:
  "s\<lparr>new_locate := a, new_frame := b\<rparr> = s\<lparr>new_frame := b, new_locate := a\<rparr>"
  by (cases s) simp

lemma set_evict_order: "set (evict_order s) = set (tracked s)"
  by (simp add: evict_order_def tracked_def)

lemma Size_zero_iff:
  assumes inv: "replacer_inv s"
  shows "Size s = 0 \<longleftrightarrow> find (evictable s) (evict_order s) = None"
proof -
  from inv have sz: "curr_size s = length (filter (evictable s) (tracked s))"
    unfolding replacer_inv_def by blast
  have "Size s = 0 \<longleftrightarrow> (\<forall>f \<in> set (tracked s). \<not> evictable s f)"
    unfolding Size_def sz by (simp add: filter_empty_conv)
  then show ?thesis
    by (simp only: find_None_iff set_evict_order) blast
qed

lemma Evict_inv_eq:
  assumes inv: "replacer_inv s"
  shows "Evict s = (case find (evictable s) (evict_order s) of
                      None \<Rightarrow> (None, s)
                    | Some f \<Rightarrow> (Some f, retired s f))"
proof (cases "find (evictable s) (evict_order s)")
  case None
  with Size_zero_iff [OF inv] show ?thesis by (simp add: Evict_def)
next
  case (Some f)
  with Size_zero_iff [OF inv] have nz: "Size s \<noteq> 0" by simp
  from inv have dn: "distinct (tracked s)" unfolding replacer_inv_def by blast
  from Some have ev: "evictable s f" and mem: "f \<in> set (tracked s)"
    by (auto dest: find_SomeD simp: set_evict_order)
  show ?thesis
  proof (cases "find (evictable s) (rev (new_frame s))")
    case n: (Some g)
    with Some have gf: "g = f" by (simp add: evict_order_def find_append_eq)
    with find_SomeD [OF n] have fn: "f \<in> set (new_frame s)" by simp
    from retire_eq(1) [OF inv mem ev fn] nz n gf Some show ?thesis
      by (simp add: Evict_def removeAll_filter new_updates_commute)
  next
    case n: None
    with Some have c: "find (evictable s) (map fst (cache_frame s)) = Some f"
      by (simp add: evict_order_def find_append_eq)
    then obtain e where e: "find (\<lambda>e. evictable s (fst e)) (cache_frame s) = Some e"
      and fe: "fst e = f"
      by (auto simp: find_map_fst)
    from e have "e \<in> set (cache_frame s)" by (auto dest: find_SomeD)
    with fe have fc: "f \<in> fst ` set (cache_frame s)" by force
    from dn have dc: "distinct (map fst (cache_frame s))" by (simp add: tracked_def)
    from erase_first_found [OF e dc] fe
    have "erase_first (\<lambda>e. evictable s (fst e)) (cache_frame s)
            = filter (\<lambda>x. fst x \<noteq> f) (cache_frame s)" by simp
    with retire_eq(2) [OF inv mem ev fc] nz n e fe Some show ?thesis
      by (simp add: Evict_def)
  qed
qed

lemma Remove_inv_eq:
  assumes inv: "replacer_inv s"
  shows "Remove s f =
           (if frame_too_large s f \<or> \<not> evictable s f then (Threw, s)
            else if recorded_cnt s f = 0 then (Returned, s)
            else (Returned, retired s f))"
proof (cases "frame_too_large s f \<or> \<not> evictable s f \<or> recorded_cnt s f = 0")
  case True
  then show ?thesis by (auto simp: Remove_def)
next
  case False
  then have ok: "\<not> frame_too_large s f" and ev: "evictable s f" and pos: "0 < recorded_cnt s f"
    by auto
  from inv have dn: "distinct (tracked s)"
    and mn: "\<And>f. f \<in> set (new_frame s) \<longleftrightarrow> 0 < recorded_cnt s f \<and> recorded_cnt s f < k_val s"
    and mc: "\<And>f. f \<in> fst ` set (cache_frame s) \<longleftrightarrow> k_val s \<le> recorded_cnt s f"
    and nl: "new_locate s = set (new_frame s)"
    and cl: "cache_locate s = fst ` set (cache_frame s)"
    unfolding replacer_inv_def by blast+
  show ?thesis
  proof (cases "recorded_cnt s f < k_val s")
    case True
    with pos mn [of f] have fn: "f \<in> set (new_frame s)" by simp
    then have mem: "f \<in> set (tracked s)" by (simp add: tracked_def)
    from dn have "distinct (new_frame s)" by (simp add: tracked_def)
    then have "remove1 f (new_frame s) = filter (\<lambda>y. y \<noteq> f) (new_frame s)"
      by (rule remove1_filter)
    with retire_eq(1) [OF inv mem ev fn] ok ev pos True fn nl show ?thesis
      by (simp add: Remove_def)
  next
    case False
    with mc [of f] have fc: "f \<in> fst ` set (cache_frame s)" by simp
    then have mem: "f \<in> set (tracked s)" by (simp add: tracked_def)
    from dn have "distinct (map fst (cache_frame s))" by (simp add: tracked_def)
    then have "erase_first (\<lambda>e. fst e = f) (cache_frame s) = filter (\<lambda>e. fst e \<noteq> f) (cache_frame s)"
      by (rule erase_first_key)
    with retire_eq(2) [OF inv mem ev fc] ok ev pos False fc cl show ?thesis
      by (simp add: Remove_def)
  qed
qed

lemma inv_Evict:
  assumes inv: "replacer_inv s"
  shows "replacer_inv (snd (Evict s)) \<and> current_timestamp (snd (Evict s)) = current_timestamp s"
proof (cases "find (evictable s) (evict_order s)")
  case None
  with inv show ?thesis by (simp add: Evict_inv_eq)
next
  case (Some f)
  then have ev: "evictable s f" and mem: "f \<in> set (tracked s)"
    by (auto dest: find_SomeD simp: set_evict_order)
  from inv_retired [OF inv mem ev] Some inv show ?thesis
    by (simp add: Evict_inv_eq retired_def)
qed

lemma inv_Remove:
  assumes inv: "replacer_inv s" and r: "Remove s f = (oc, s')"
  shows "oc \<noteq> Undefined \<and> replacer_inv s' \<and> current_timestamp s' = current_timestamp s"
proof (cases "frame_too_large s f \<or> \<not> evictable s f \<or> recorded_cnt s f = 0")
  case True
  with r inv show ?thesis by (auto simp: Remove_inv_eq split: if_splits)
next
  case False
  then have ev: "evictable s f" and pos: "0 < recorded_cnt s f" by auto
  from inv have mn: "\<And>f. f \<in> set (new_frame s) \<longleftrightarrow> 0 < recorded_cnt s f \<and> recorded_cnt s f < k_val s"
    and mc: "\<And>f. f \<in> fst ` set (cache_frame s) \<longleftrightarrow> k_val s \<le> recorded_cnt s f"
    unfolding replacer_inv_def by blast+
  from pos mn [of f] mc [of f] have mem: "f \<in> set (tracked s)"
    unfolding set_tracked by auto
  from False r inv have "oc = Returned" "s' = retired s f"
    by (auto simp: Remove_inv_eq split: if_splits)
  with inv_retired [OF inv mem ev] show ?thesis by (simp add: retired_def)
qed

subsection \<open>RecordAccess on a state that satisfies the invariant\<close>

lemma cache_insert_sorted:
  assumes "hist s f = t # ts" and "sorted (map snd (cache_frame s))"
  shows "cache_insert s f =
           (Returned, s\<lparr>cache_frame :=
                           list_insert (upper_bound (cache_frame s) (f, t)) (f, t) (cache_frame s),
                         cache_locate := insert f (cache_locate s)\<rparr>)"
  using assms sorted_partitioned [of "cache_frame s" "(f, t)"]
  by (simp add: cache_insert_def Let_def)

lemma RecordAccess_inv_eq:
  assumes inv: "replacer_inv s" and nw: "current_timestamp s + 1 < 2 ^ 64"
    and ok: "\<not> frame_too_large s f"
  shows "RecordAccess s f = (Returned, accessed s f)"
proof -
  from inv have k: "1 \<le> k_val s"
    and dn: "distinct (tracked s)"
    and mn: "\<And>f. f \<in> set (new_frame s) \<longleftrightarrow> 0 < recorded_cnt s f \<and> recorded_cnt s f < k_val s"
    and mc: "\<And>f. f \<in> fst ` set (cache_frame s) \<longleftrightarrow> k_val s \<le> recorded_cnt s f"
    and nl: "new_locate s = set (new_frame s)"
    and cl: "cache_locate s = fst ` set (cache_frame s)"
    and sz: "curr_size s = length (filter (evictable s) (tracked s))"
    and hl: "\<And>f. length (hist s f) = min (recorded_cnt s f) (k_val s)"
    and so: "sorted (map snd (cache_frame s))"
    and ct: "\<And>f. recorded_cnt s f \<le> current_timestamp s"
    and ln: "length (tracked s) \<le> current_timestamp s"
    unfolding replacer_inv_def by blast+
  let ?ts = "current_timestamp s + 1"
  let ?c = "recorded_cnt s f + 1"
  have its: "size_incr (current_timestamp s) = ?ts" using nw by (rule size_incr_eq)
  have ic: "size_incr (recorded_cnt s f) = ?c"
    using ct [of f] nw by (intro size_incr_eq) arith
  have "curr_size s \<le> length (tracked s)" unfolding sz by (rule length_filter_le)
  with ln nw have isz: "size_incr (curr_size s) = curr_size s + 1"
    by (intro size_incr_eq) arith
  from dn have dnew: "distinct (new_frame s)" and dc: "distinct (map fst (cache_frame s))"
    by (simp_all add: tracked_def)
  consider (less) "?c < k_val s" | (eq) "?c = k_val s" | (more) "k_val s < ?c" by arith
  then show ?thesis
  proof cases
    case less
    have "recorded_cnt s f \<noteq> 0 \<Longrightarrow> insert f (new_locate s) = new_locate s"
      using less mn [of f] nl by auto
    with less ok its ic isz show ?thesis
      by (auto simp: RecordAccess_def accessed_def Let_def)
  next
    case eq
    have fnc: "f \<notin> fst ` set (cache_frame s)" using eq mc [of f] by simp
    then have rest: "filter (\<lambda>e. fst e \<noteq> f) (cache_frame s) = cache_frame s"
      by (auto simp: filter_id_conv)
    have hne: "hist s f @ [?ts] = hd (hist s f @ [?ts]) # tl (hist s f @ [?ts])" by simp
    show ?thesis
    proof (cases "recorded_cnt s f = 0")
      case True
      with mn [of f] have "f \<notin> set (new_frame s)" by simp
      then have "filter (\<lambda>y. y \<noteq> f) (new_frame s) = new_frame s" "new_locate s - {f} = new_locate s"
        using nl by (auto simp: filter_id_conv)
      with True eq ok its ic isz rest so hne show ?thesis
        by (simp add: RecordAccess_def accessed_def Let_def cache_insert_sorted [where t = "hd (hist s f @ [?ts])" and ts = "tl (hist s f @ [?ts])"])
    next
      case False
      with eq mn [of f] nl have fl: "f \<in> new_locate s" by simp
      have "remove1 f (new_frame s) = filter (\<lambda>y. y \<noteq> f) (new_frame s)"
        using dnew by (rule remove1_filter)
      with False eq ok its ic isz rest so hne fl show ?thesis
        by (simp add: RecordAccess_def accessed_def Let_def cache_insert_sorted [where t = "hd (hist s f @ [?ts])" and ts = "tl (hist s f @ [?ts])"])
    qed
  next
    case more
    then have ge: "k_val s \<le> recorded_cnt s f" by simp
    with mc [of f] cl have fl: "f \<in> cache_locate s" by simp
    from ge k have c1: "recorded_cnt s f \<noteq> 0" by simp
    from ge mn [of f] have "f \<notin> set (new_frame s)" by simp
    then have fn: "filter (\<lambda>y. y \<noteq> f) (new_frame s) = new_frame s" "new_locate s - {f} = new_locate s"
      using nl by (auto simp: filter_id_conv)
    have er: "erase_first (\<lambda>e. fst e = f) (cache_frame s) = filter (\<lambda>e. fst e \<noteq> f) (cache_frame s)"
      using dc by (rule erase_first_key)
    have "length (hist s f) = k_val s" using hl [of f] ge by simp
    with k have "tl (hist s f @ [?ts]) \<noteq> []" by (cases "hist s f") auto
    then have hne: "tl (hist s f @ [?ts]) = hd (tl (hist s f @ [?ts])) # tl (tl (hist s f @ [?ts]))"
      by simp
    have so': "sorted (map snd (filter (\<lambda>e. fst e \<noteq> f) (cache_frame s)))"
      using so by (rule sorted_filter)
    from more c1 ok its ic fn er fl so' hne insert_absorb [OF fl] show ?thesis
      by (simp add: RecordAccess_def accessed_def Let_def cache_insert_sorted [where t = "hd (tl (hist s f @ [?ts]))" and ts = "tl (tl (hist s f @ [?ts]))"])
  qed
qed

lemma accessed_fields:
  "k_val (accessed s f) = k_val s"
  "current_timestamp (accessed s f) = current_timestamp s + 1"
  "recorded_cnt (accessed s f) = (recorded_cnt s)(f := recorded_cnt s f + 1)"
  "evictable (accessed s f) =
     (if recorded_cnt s f = 0 then (evictable s)(f := True) else evictable s)"
  "curr_size (accessed s f) = (if recorded_cnt s f = 0 then curr_size s + 1 else curr_size s)"
  "hist (accessed s f) =
     (hist s)(f := if k_val s < recorded_cnt s f + 1 then tl (hist s f @ [current_timestamp s + 1])
                   else hist s f @ [current_timestamp s + 1])"
  by (simp_all add: accessed_def Let_def)

lemma accessed_lists_less:
  assumes "recorded_cnt s f + 1 < k_val s"
  shows "new_frame (accessed s f) = (if recorded_cnt s f = 0 then f # new_frame s else new_frame s)"
    and "new_locate (accessed s f) = insert f (new_locate s)"
    and "cache_frame (accessed s f) = cache_frame s"
    and "cache_locate (accessed s f) = cache_locate s"
  using assms by (simp_all add: accessed_def Let_def)

lemma accessed_lists_ge:
  assumes "k_val s \<le> recorded_cnt s f + 1"
  shows "new_frame (accessed s f) = filter (\<lambda>y. y \<noteq> f) (new_frame s)"
    and "new_locate (accessed s f) = new_locate s - {f}"
    and "cache_frame (accessed s f) =
           list_insert (upper_bound (filter (\<lambda>e. fst e \<noteq> f) (cache_frame s))
                          (f, hd (hist (accessed s f) f)))
             (f, hd (hist (accessed s f) f)) (filter (\<lambda>e. fst e \<noteq> f) (cache_frame s))"
    and "cache_locate (accessed s f) = insert f (cache_locate s)"
  using assms by (simp_all add: accessed_def Let_def)

lemma filter_fst_list_insert:
  "length (filter P (map fst (list_insert i v es))) =
     (if P (fst v) then 1 else 0) + length (filter P (map fst es))"
  using filter_list_insert [of "\<lambda>e. P (fst e)" i v es]
  by (simp add: length_filter_map comp_def)

lemma count_tracked_accessed:
  assumes inv: "replacer_inv s"
  shows "length (filter P (tracked (accessed s f))) =
           (if P f then 1 else 0) + length (filter P (filter (\<lambda>y. y \<noteq> f) (tracked s)))"
proof -
  from inv have dn: "distinct (tracked s)"
    and mn: "\<And>f. f \<in> set (new_frame s) \<longleftrightarrow> 0 < recorded_cnt s f \<and> recorded_cnt s f < k_val s"
    and mc: "\<And>f. f \<in> fst ` set (cache_frame s) \<longleftrightarrow> k_val s \<le> recorded_cnt s f"
    unfolding replacer_inv_def by blast+
  show ?thesis
  proof (cases "recorded_cnt s f + 1 < k_val s")
    case less: True
    show ?thesis
    proof (cases "recorded_cnt s f = 0")
      case True
      with mn [of f] mc [of f] less have "f \<notin> set (tracked s)" by (simp add: set_tracked)
      then have "filter (\<lambda>y. y \<noteq> f) (tracked s) = tracked s" by (auto simp: filter_id_conv)
      moreover have "tracked (accessed s f) = f # tracked s"
        using True less by (simp add: tracked_def accessed_lists_less)
      ultimately show ?thesis by simp
    next
      case False
      with mn [of f] less have "f \<in> set (tracked s)" by (simp add: set_tracked)
      with count_remove [OF dn, of P f]
      have "length (filter P (tracked s)) =
              (if P f then 1 else 0) + length (filter P (filter (\<lambda>y. y \<noteq> f) (tracked s)))"
        by simp
      moreover have "tracked (accessed s f) = tracked s"
        using False less by (simp add: tracked_def accessed_lists_less)
      ultimately show ?thesis by simp
    qed
  next
    case False
    then have ge: "k_val s \<le> recorded_cnt s f + 1" by simp
    let ?A = "filter (\<lambda>y. y \<noteq> f) (new_frame s)"
    let ?rest = "filter (\<lambda>e. fst e \<noteq> f) (cache_frame s)"
    let ?v = "(f, hd (hist (accessed s f) f))"
    have b: "filter (\<lambda>y. y \<noteq> f) (tracked s) = ?A @ map fst ?rest"
      by (simp add: tracked_def filter_key_map)
    have a: "tracked (accessed s f) = ?A @ map fst (list_insert (upper_bound ?rest ?v) ?v ?rest)"
      by (simp only: tracked_def accessed_lists_ge [OF ge])
    have "length (filter P (tracked (accessed s f))) =
            length (filter P ?A) + ((if P (fst ?v) then 1 else 0) + length (filter P (map fst ?rest)))"
      by (simp only: a filter_append length_append filter_fst_list_insert)
    also have "\<dots> = (if P f then 1 else 0) + length (filter P (?A @ map fst ?rest))"
      by (simp only: filter_append length_append fst_conv)
    finally show ?thesis by (simp only: b)
  qed
qed

lemma set_tracked_accessed:
  assumes inv: "replacer_inv s"
  shows "set (tracked (accessed s f)) = insert f (set (tracked s))"
proof -
  from inv have mn: "\<And>f. f \<in> set (new_frame s) \<longleftrightarrow> 0 < recorded_cnt s f \<and> recorded_cnt s f < k_val s"
    unfolding replacer_inv_def by blast
  show ?thesis
  proof (cases "recorded_cnt s f + 1 < k_val s")
    case True
    with mn [of f] show ?thesis
      by (auto simp: tracked_def accessed_lists_less)
  next
    case False
    then have ge: "k_val s \<le> recorded_cnt s f + 1" by simp
    show ?thesis
      unfolding tracked_def accessed_lists_ge [OF ge]
      by (auto simp: set_list_insert)
  qed
qed

lemma distinct_tracked_accessed:
  assumes inv: "replacer_inv s"
  shows "distinct (tracked (accessed s f))"
proof -
  from inv have dn: "distinct (tracked s)"
    and mn: "\<And>f. f \<in> set (new_frame s) \<longleftrightarrow> 0 < recorded_cnt s f \<and> recorded_cnt s f < k_val s"
    and mc: "\<And>f. f \<in> fst ` set (cache_frame s) \<longleftrightarrow> k_val s \<le> recorded_cnt s f"
    unfolding replacer_inv_def by blast+
  show ?thesis
  proof (cases "recorded_cnt s f + 1 < k_val s")
    case True
    with mn [of f] mc [of f] dn show ?thesis
      by (auto simp: tracked_def accessed_lists_less)
  next
    case False
    then have ge: "k_val s \<le> recorded_cnt s f + 1" by simp
    from dn have "distinct (map fst (filter (\<lambda>e. fst e \<noteq> f) (cache_frame s)))"
      by (simp add: tracked_def filter_key_map)
    with dn show ?thesis
      unfolding tracked_def accessed_lists_ge [OF ge]
      by (auto simp: distinct_list_insert set_list_insert)
  qed
qed

lemma filter_upd_other:
  "filter (P(f := b)) (filter (\<lambda>y. y \<noteq> f) xs) = filter P (filter (\<lambda>y. y \<noteq> f) xs)"
  by (rule filter_cong) auto

lemma inv_accessed:
  assumes inv: "replacer_inv s" and nw: "current_timestamp s + 1 < 2 ^ 64"
  shows "replacer_inv (accessed s f)"
proof -
  from inv have k: "1 \<le> k_val s"
    and dn: "distinct (tracked s)"
    and mn: "\<And>f. f \<in> set (new_frame s) \<longleftrightarrow> 0 < recorded_cnt s f \<and> recorded_cnt s f < k_val s"
    and mc: "\<And>f. f \<in> fst ` set (cache_frame s) \<longleftrightarrow> k_val s \<le> recorded_cnt s f"
    and nl: "new_locate s = set (new_frame s)"
    and cl: "cache_locate s = fst ` set (cache_frame s)"
    and sz: "curr_size s = length (filter (evictable s) (tracked s))"
    and hl: "\<And>f. length (hist s f) = min (recorded_cnt s f) (k_val s)"
    and kt: "\<And>e. e \<in> set (cache_frame s) \<Longrightarrow> snd e = hd (hist s (fst e))"
    and so: "sorted (map snd (cache_frame s))"
    and ct: "\<And>f. recorded_cnt s f \<le> current_timestamp s"
    and ln: "length (tracked s) \<le> current_timestamp s"
    and ts: "current_timestamp s < 2 ^ 64"
    unfolding replacer_inv_def by blast+
  let ?s = "accessed s f"
  let ?rest = "filter (\<lambda>e. fst e \<noteq> f) (cache_frame s)"
  have 1: "1 \<le> k_val ?s" using k by (simp add: accessed_fields)
  have 2: "distinct (tracked ?s)" using inv by (rule distinct_tracked_accessed)
  have 3: "\<forall>g. g \<in> set (new_frame ?s) \<longleftrightarrow> 0 < recorded_cnt ?s g \<and> recorded_cnt ?s g < k_val ?s"
  proof (cases "recorded_cnt s f + 1 < k_val s")
    case True
    with mn show ?thesis by (auto simp: accessed_fields accessed_lists_less)
  next
    case False
    then have ge: "k_val s \<le> recorded_cnt s f + 1" by simp
    with mn show ?thesis by (auto simp: accessed_fields accessed_lists_ge)
  qed
  have 4: "\<forall>g. g \<in> fst ` set (cache_frame ?s) \<longleftrightarrow> k_val ?s \<le> recorded_cnt ?s g"
  proof (cases "recorded_cnt s f + 1 < k_val s")
    case True
    with mc [of f] have "f \<notin> fst ` set (cache_frame s)" by simp
    with True mc show ?thesis by (auto simp: accessed_fields accessed_lists_less)
  next
    case False
    then have ge: "k_val s \<le> recorded_cnt s f + 1" by simp
    have "fst ` set ?rest = fst ` set (cache_frame s) - {f}" by auto
    with ge mc show ?thesis
      by (simp add: accessed_fields(1,3) accessed_lists_ge(3) [OF ge] set_list_insert)
  qed
  have 5: "new_locate ?s = set (new_frame ?s)"
  proof (cases "recorded_cnt s f + 1 < k_val s")
    case True
    with mn [of f] nl show ?thesis by (auto simp: accessed_lists_less)
  next
    case False
    then have ge: "k_val s \<le> recorded_cnt s f + 1" by simp
    with nl show ?thesis by (auto simp: accessed_lists_ge)
  qed
  have 6: "cache_locate ?s = fst ` set (cache_frame ?s)"
  proof (cases "recorded_cnt s f + 1 < k_val s")
    case True
    with cl show ?thesis by (simp add: accessed_lists_less)
  next
    case False
    then have ge: "k_val s \<le> recorded_cnt s f + 1" by simp
    have "insert f (fst ` set ?rest) = insert f (fst ` set (cache_frame s))" by auto
    with cl show ?thesis
      by (simp add: accessed_lists_ge(3,4) [OF ge] set_list_insert)
  qed
  have 7: "curr_size ?s = length (filter (evictable ?s) (tracked ?s))"
  proof (cases "recorded_cnt s f = 0")
    case True
    with mn [of f] mc [of f] k have "f \<notin> set (tracked s)" by (simp add: set_tracked)
    then have "filter (\<lambda>y. y \<noteq> f) (tracked s) = tracked s" by (auto simp: filter_id_conv)
    with True sz show ?thesis
      using count_tracked_accessed [OF inv, of "(evictable s)(f := True)" f]
        filter_upd_other [of "evictable s" f True "tracked s"]
      by (simp add: accessed_fields)
  next
    case False
    with mn [of f] mc [of f] have "f \<in> set (tracked s)" by (auto simp: set_tracked)
    with False sz show ?thesis
      using count_tracked_accessed [OF inv, of "evictable s" f]
        count_remove [OF dn, of "evictable s" f]
      by (simp add: accessed_fields)
  qed
  have 8: "\<forall>g. length (hist ?s g) = min (recorded_cnt ?s g) (k_val ?s)"
    using hl by (auto simp: accessed_fields)
  have 9: "\<forall>e \<in> set (cache_frame ?s). snd e = hd (hist ?s (fst e))"
  proof (cases "recorded_cnt s f + 1 < k_val s")
    case True
    with mc [of f] have "\<forall>e \<in> set (cache_frame s). fst e \<noteq> f" by auto
    with True kt show ?thesis by (simp add: accessed_fields accessed_lists_less)
  next
    case False
    then have ge: "k_val s \<le> recorded_cnt s f + 1" by simp
    have "\<forall>e \<in> set ?rest. snd e = hd (hist ?s (fst e))"
      using kt by (simp add: accessed_fields)
    then show ?thesis
      by (simp add: accessed_lists_ge(3) [OF ge] set_list_insert)
  qed
  have 10: "sorted (map snd (cache_frame ?s))"
  proof (cases "recorded_cnt s f + 1 < k_val s")
    case True
    with so show ?thesis by (simp add: accessed_lists_less)
  next
    case False
    then have ge: "k_val s \<le> recorded_cnt s f + 1" by simp
    have "sorted (map snd ?rest)" using so by (rule sorted_filter)
    then show ?thesis
      unfolding accessed_lists_ge(3) [OF ge] by (rule sorted_upper_insert)
  qed
  have 11: "\<forall>g. recorded_cnt ?s g \<le> current_timestamp ?s"
    using ct by (auto simp: accessed_fields le_SucI)
  have 12: "length (tracked ?s) \<le> current_timestamp ?s"
  proof -
    have "length (tracked ?s) = 1 + length (filter (\<lambda>y. y \<noteq> f) (tracked s))"
      using count_tracked_accessed [OF inv, of "\<lambda>_. True" f] by simp
    moreover have "length (filter (\<lambda>y. y \<noteq> f) (tracked s)) \<le> length (tracked s)"
      by (rule length_filter_le)
    then have "length (filter (\<lambda>y. y \<noteq> f) (tracked s)) \<le> current_timestamp s"
      using ln by (rule le_trans)
    ultimately show ?thesis by (simp add: accessed_fields)
  qed
  have 13: "current_timestamp ?s < 2 ^ 64" using nw by (simp add: accessed_fields)
  from 1 2 3 4 5 6 7 8 9 10 11 12 13 show ?thesis
    unfolding replacer_inv_def by blast
qed

lemma inv_RecordAccess:
  assumes inv: "replacer_inv s" and nw: "current_timestamp s + 1 < 2 ^ 64"
    and r: "RecordAccess s f = (oc, s')"
  shows "oc \<noteq> Undefined \<and> replacer_inv s' \<and> current_timestamp s' \<le> current_timestamp s + 1"
proof (cases "frame_too_large s f")
  case True
  with r inv show ?thesis by (auto simp: RecordAccess_def)
next
  case False
  from RecordAccess_inv_eq [OF inv nw False] r have "oc = Returned" "s' = accessed s f"
    by simp_all
  with inv_accessed [OF inv nw] show ?thesis by (simp add: accessed_fields)
qed

subsection \<open>The invariant along a run\<close>

lemma frame_too_large_cong:
  "replacer_size s' = replacer_size s \<Longrightarrow> frame_too_large s' f = frame_too_large s f"
  by (simp add: frame_too_large_def)

lemma frames_valid_retired: "frames_valid s \<Longrightarrow> frames_valid (retired s f)"
  by (simp add: frames_valid_def retired_def frame_too_large_def)

lemma frames_valid_accessed:
  "frames_valid s \<Longrightarrow> \<not> frame_too_large s f \<Longrightarrow> frames_valid (accessed s f)"
  by (simp add: frames_valid_def accessed_def Let_def frame_too_large_def)

lemma frames_valid_init: "frames_valid (LRUKReplacer n k)"
  by (simp add: frames_valid_def LRUKReplacer_def)

lemma perform_inv:
  assumes inv: "replacer_inv s" and fv: "frames_valid s"
    and nw: "current_timestamp s + 1 < 2 ^ 64"
    and p: "perform s c = (oc, s')"
  shows "oc \<noteq> Undefined \<and> replacer_inv s' \<and> frames_valid s' \<and>
         current_timestamp s' \<le> current_timestamp s + 1 \<and>
         k_val s' = k_val s \<and> replacer_size s' = replacer_size s"
proof (cases c)
  case (CallRecordAccess f)
  show ?thesis
  proof (cases "frame_too_large s f")
    case True
    with p CallRecordAccess inv fv show ?thesis by (auto simp: RecordAccess_def)
  next
    case False
    from RecordAccess_inv_eq [OF inv nw False] p CallRecordAccess
    have "oc = Returned" "s' = accessed s f" by simp_all
    with inv_accessed [OF inv nw] frames_valid_accessed [OF fv False] show ?thesis
      by (simp add: accessed_fields) (simp add: accessed_def Let_def)
  qed
next
  case (CallSetEvictable f b)
  with p have r: "SetEvictable s f b = (oc, s')" by simp
  from r have e: "recorded_cnt s' = recorded_cnt s" "replacer_size s' = replacer_size s"
    "k_val s' = k_val s"
    by (auto simp: SetEvictable_def Let_def split: if_splits)
  with fv have "frames_valid s'" by (simp add: frames_valid_def frame_too_large_def)
  with inv_SetEvictable [OF inv r] e show ?thesis by simp
next
  case CallEvict
  with p have oc: "oc = Returned" and s': "s' = snd (Evict s)" by auto
  have "frames_valid (snd (Evict s))"
    using fv frames_valid_retired [OF fv]
    by (simp add: Evict_inv_eq [OF inv] split: option.split)
  moreover have "k_val (snd (Evict s)) = k_val s \<and> replacer_size (snd (Evict s)) = replacer_size s"
    by (simp add: Evict_inv_eq [OF inv] retired_def split: option.split)
  ultimately show ?thesis using inv_Evict [OF inv] oc s' by simp
next
  case (CallRemove f)
  with p have r: "Remove s f = (oc, s')" by simp
  from r have d: "s' = s \<or> s' = retired s f"
    by (auto simp: Remove_inv_eq [OF inv] split: if_splits)
  with fv frames_valid_retired [OF fv] have "frames_valid s'" by auto
  moreover from d have "k_val s' = k_val s \<and> replacer_size s' = replacer_size s"
    by (auto simp: retired_def)
  ultimately show ?thesis using inv_Remove [OF inv r] by simp
qed

lemma run_inv:
  "replacer_inv s \<Longrightarrow> frames_valid s \<Longrightarrow> current_timestamp s + length cs < 2 ^ 64 \<Longrightarrow>
   \<exists>s'. run s cs = Some s' \<and> replacer_inv s' \<and> frames_valid s' \<and>
        current_timestamp s' \<le> current_timestamp s + length cs \<and>
        k_val s' = k_val s \<and> replacer_size s' = replacer_size s"
proof (induction cs arbitrary: s)
  case Nil
  then show ?case by simp
next
  case (Cons c cs)
  obtain oc s1 where p: "perform s c = (oc, s1)" by (cases "perform s c")
  from Cons.prems have nw: "current_timestamp s + 1 < 2 ^ 64" by simp
  from perform_inv [OF Cons.prems(1,2) nw p]
  have oc: "oc \<noteq> Undefined" and i1: "replacer_inv s1" and f1: "frames_valid s1"
    and t1: "current_timestamp s1 \<le> current_timestamp s + 1"
    and c1: "k_val s1 = k_val s" "replacer_size s1 = replacer_size s" by simp_all
  from t1 Cons.prems(3) have "current_timestamp s1 + length cs < 2 ^ 64" by simp
  from Cons.IH [OF i1 f1 this] obtain s' where
    r: "run s1 cs = Some s'" and i: "replacer_inv s'" and f: "frames_valid s'"
    and t: "current_timestamp s' \<le> current_timestamp s1 + length cs"
    and c: "k_val s' = k_val s1" "replacer_size s' = replacer_size s1" by blast
  from p oc r have "run s (c # cs) = Some s'" by (cases oc) simp_all
  moreover from t t1 have "current_timestamp s' \<le> current_timestamp s + length (c # cs)" by simp
  ultimately show ?case using i f c c1 by simp
qed

lemma reachable_inv:
  assumes "1 \<le> k" and "length cs < 2 ^ 64"
  shows "\<exists>s. run (LRUKReplacer n k) cs = Some s \<and> replacer_inv s \<and> frames_valid s \<and>
             k_val s = k \<and> replacer_size s = n \<and> current_timestamp s \<le> length cs"
proof -
  have ts0: "current_timestamp (LRUKReplacer n k) = 0"
    and p: "k_val (LRUKReplacer n k) = k" "replacer_size (LRUKReplacer n k) = n"
    by (simp_all add: LRUKReplacer_def)
  from ts0 assms(2) have "current_timestamp (LRUKReplacer n k) + length cs < 2 ^ 64" by simp
  from run_inv [OF replacer_inv_init [OF assms(1)] frames_valid_init this]
  obtain s where "run (LRUKReplacer n k) cs = Some s" "replacer_inv s" "frames_valid s"
    "current_timestamp s \<le> current_timestamp (LRUKReplacer n k) + length cs"
    "k_val s = k_val (LRUKReplacer n k)"
    "replacer_size s = replacer_size (LRUKReplacer n k)" by blast
  then show ?thesis unfolding ts0 p by simp
qed

subsection \<open>The replacer and the access logs\<close>

lemma cached_hist_nonempty:
  assumes inv: "replacer_inv s" and e: "e \<in> set (cache_frame s)"
  shows "hist s (fst e) \<noteq> [] \<and> snd e = hd (hist s (fst e))"
proof -
  from inv have k: "1 \<le> k_val s"
    and mc: "\<And>f. f \<in> fst ` set (cache_frame s) \<longleftrightarrow> k_val s \<le> recorded_cnt s f"
    and hl: "\<And>f. length (hist s f) = min (recorded_cnt s f) (k_val s)"
    and kt: "\<And>e. e \<in> set (cache_frame s) \<Longrightarrow> snd e = hd (hist s (fst e))"
    unfolding replacer_inv_def by blast+
  from e have "fst e \<in> fst ` set (cache_frame s)" by simp
  with mc have "k_val s \<le> recorded_cnt s (fst e)" by simp
  with hl [of "fst e"] k have "0 < length (hist s (fst e))" by simp
  with kt [OF e] show ?thesis by simp
qed

lemma log_inv_init: "log_inv (LRUKReplacer n k) (0, \<lambda>_. [])"
  by (simp add: log_inv_def LRUKReplacer_def)

lemma map_hd_upd:
  "f \<notin> set xs \<Longrightarrow> map (\<lambda>x. hd ((L(f := v)) x)) xs = map (\<lambda>x. hd (L x)) xs"
  by (induction xs) auto

lemma sorted_wrt_map_filter:
  "sorted_wrt R (map h xs) \<Longrightarrow> sorted_wrt R (map h (filter P xs))"
  by (induction xs) auto

lemma log_inv_retired:
  assumes li: "log_inv s (t, L)"
  shows "log_inv (retired s f) (t, L(f := []))"
proof -
  from li have ts: "current_timestamp s = t"
    and cn: "\<And>f. recorded_cnt s f = length (L f)"
    and hi: "\<And>f. hist s f = drop (length (L f) - k_val s) (L f)"
    and sl: "\<And>f. sorted_wrt (<) (L f)"
    and bd: "\<And>f x. x \<in> set (L f) \<Longrightarrow> x \<le> t"
    and dj: "\<And>f f'. f \<noteq> f' \<Longrightarrow> set (L f) \<inter> set (L f') = {}"
    and nf: "sorted_wrt (>) (map (\<lambda>f. hd (L f)) (new_frame s))"
    unfolding log_inv_def by simp_all
  let ?L = "L(f := [])"
  have 1: "current_timestamp (retired s f) = t" using ts by (simp add: retired_def)
  have 2: "\<forall>g. recorded_cnt (retired s f) g = length (?L g)"
    using cn by (simp add: retired_def)
  have 3: "\<forall>g. hist (retired s f) g = drop (length (?L g) - k_val (retired s f)) (?L g)"
    using hi by (simp add: retired_def)
  have 4: "\<forall>g. sorted_wrt (<) (?L g)" using sl by simp
  have 5: "\<forall>g. \<forall>x \<in> set (?L g). x \<le> t" using bd by simp
  have 6: "\<forall>g g'. g \<noteq> g' \<longrightarrow> set (?L g) \<inter> set (?L g') = {}" using dj by simp
  have nf': "new_frame (retired s f) = filter (\<lambda>y. y \<noteq> f) (new_frame s)"
    by (simp add: retired_def)
  have e: "map (\<lambda>x. hd (?L x)) (filter (\<lambda>y. y \<noteq> f) (new_frame s))
             = map (\<lambda>x. hd (L x)) (filter (\<lambda>y. y \<noteq> f) (new_frame s))"
    by (rule map_hd_upd) simp
  have 7: "sorted_wrt (>) (map (\<lambda>x. hd (?L x)) (new_frame (retired s f)))"
    unfolding nf' e using nf by (rule sorted_wrt_map_filter)
  from 1 2 3 4 5 6 7 show ?thesis unfolding log_inv_def fst_conv snd_conv by blast
qed

lemma last_k_append:
  assumes "1 \<le> k"
  shows "drop (Suc (length xs) - k) (xs @ [x]) =
           (if k < Suc (length xs) then tl (drop (length xs - k) xs @ [x])
            else drop (length xs - k) xs @ [x])"
proof (cases "k \<le> length xs")
  case True
  with assms have ne: "drop (length xs - k) xs \<noteq> []" by simp
  from True have e: "Suc (length xs) - k = Suc (length xs - k)" by simp
  have "drop (Suc (length xs - k)) (xs @ [x]) = drop (Suc (length xs - k)) xs @ [x]"
    using True assms by simp
  also have "drop (Suc (length xs - k)) xs = tl (drop (length xs - k) xs)"
    by (simp add: drop_Suc tl_drop)
  also have "tl (drop (length xs - k) xs) @ [x] = tl (drop (length xs - k) xs @ [x])"
    using ne by simp
  finally show ?thesis using True unfolding e by simp
next
  case False
  then show ?thesis by simp
qed

lemma log_inv_accessed:
  assumes inv: "replacer_inv s" and li: "log_inv s (t, L)"
  shows "log_inv (accessed s f) (t + 1, L(f := L f @ [t + 1]))"
proof -
  from inv have k: "1 \<le> k_val s"
    and mn: "\<And>f. f \<in> set (new_frame s) \<longleftrightarrow> 0 < recorded_cnt s f \<and> recorded_cnt s f < k_val s"
    unfolding replacer_inv_def by blast+
  from li have ts: "current_timestamp s = t"
    and cn: "\<And>f. recorded_cnt s f = length (L f)"
    and hi: "\<And>f. hist s f = drop (length (L f) - k_val s) (L f)"
    and sl: "\<And>f. sorted_wrt (<) (L f)"
    and bd: "\<And>f x. x \<in> set (L f) \<Longrightarrow> x \<le> t"
    and dj: "\<And>f f'. f \<noteq> f' \<Longrightarrow> set (L f) \<inter> set (L f') = {}"
    and nf: "sorted_wrt (>) (map (\<lambda>f. hd (L f)) (new_frame s))"
    unfolding log_inv_def by simp_all
  let ?L = "L(f := L f @ [t + 1])"
  let ?s = "accessed s f"
  have 1: "current_timestamp ?s = t + 1" using ts by (simp add: accessed_fields)
  have 2: "\<forall>g. recorded_cnt ?s g = length (?L g)"
    using cn by (simp add: accessed_fields)
  have 3: "\<forall>g. hist ?s g = drop (length (?L g) - k_val ?s) (?L g)"
  proof
    fix g
    show "hist ?s g = drop (length (?L g) - k_val ?s) (?L g)"
    proof (cases "g = f")
      case True
      have "hist ?s f = (if k_val s < Suc (length (L f))
                         then tl (drop (length (L f) - k_val s) (L f) @ [t + 1])
                         else drop (length (L f) - k_val s) (L f) @ [t + 1])"
        by (simp add: accessed_fields cn hi ts)
      also have "\<dots> = drop (Suc (length (L f)) - k_val s) (L f @ [t + 1])"
        by (rule last_k_append [OF k, symmetric])
      finally show ?thesis using True by (simp add: accessed_fields)
    next
      case False
      then show ?thesis using hi by (simp add: accessed_fields)
    qed
  qed
  have new: "t + 1 \<notin> set (L g)" for g using bd [of "t + 1" g] by auto
  have 4: "\<forall>g. sorted_wrt (<) (?L g)"
    using sl bd by (auto simp: sorted_wrt_append less_Suc_eq_le)
  have 5: "\<forall>g. \<forall>x \<in> set (?L g). x \<le> t + 1"
    using bd by (auto simp: le_SucI)
  have 6: "\<forall>g g'. g \<noteq> g' \<longrightarrow> set (?L g) \<inter> set (?L g') = {}"
    using dj new by auto
  have 7: "sorted_wrt (>) (map (\<lambda>x. hd (?L x)) (new_frame ?s))"
  proof (cases "recorded_cnt s f + 1 < k_val s")
    case less: True
    show ?thesis
    proof (cases "recorded_cnt s f = 0")
      case True
      with mn [of f] have fn: "f \<notin> set (new_frame s)" by simp
      have e: "map (\<lambda>x. hd (?L x)) (new_frame s) = map (\<lambda>x. hd (L x)) (new_frame s)"
        using fn by (rule map_hd_upd)
      have "hd (L g) < t + 1" if "g \<in> set (new_frame s)" for g
      proof -
        from that mn [of g] cn [of g] have "L g \<noteq> []" by auto
        then have "hd (L g) \<in> set (L g)" by simp
        from bd [OF this] show ?thesis by simp
      qed
      moreover have "new_frame ?s = f # new_frame s"
        using True less by (simp add: accessed_lists_less)
      moreover have "hd (?L f) = t + 1" using True cn [of f] by simp
      ultimately show ?thesis using nf
        by (simp only: list.map sorted_wrt.simps e) auto
    next
      case False
      with cn [of f] have ne: "L f \<noteq> []" by auto
      have "map (\<lambda>x. hd (?L x)) (new_frame s) = map (\<lambda>x. hd (L x)) (new_frame s)"
        by (rule map_cong) (use ne in auto)
      moreover have "new_frame ?s = new_frame s"
        using False less by (simp add: accessed_lists_less)
      ultimately show ?thesis using nf by (simp only:)
    qed
  next
    case False
    then have ge: "k_val s \<le> recorded_cnt s f + 1" by simp
    have nf': "new_frame ?s = filter (\<lambda>y. y \<noteq> f) (new_frame s)"
      by (rule accessed_lists_ge(1) [OF ge])
    have e: "map (\<lambda>x. hd (?L x)) (filter (\<lambda>y. y \<noteq> f) (new_frame s))
               = map (\<lambda>x. hd (L x)) (filter (\<lambda>y. y \<noteq> f) (new_frame s))"
      by (rule map_hd_upd) simp
    show ?thesis unfolding nf' e using nf by (rule sorted_wrt_map_filter)
  qed
  from 1 2 3 4 5 6 7 show ?thesis unfolding log_inv_def fst_conv snd_conv by blast
qed

lemma perform_log_inv:
  assumes inv: "replacer_inv s" and nw: "current_timestamp s + 1 < 2 ^ 64"
    and li: "log_inv s g"
  shows "log_inv (snd (perform s c)) (log_call s c g)"
proof -
  obtain t L where g: "g = (t, L)" by (cases g)
  show ?thesis
  proof (cases c)
    case (CallRecordAccess f)
    show ?thesis
    proof (cases "frame_too_large s f")
      case True
      then have "RecordAccess s f = (Threw, s)" by (simp add: RecordAccess_def)
      with li CallRecordAccess g show ?thesis by simp
    next
      case False
      from RecordAccess_inv_eq [OF inv nw False] log_inv_accessed [OF inv li [unfolded g]]
      show ?thesis using CallRecordAccess g by simp
    qed
  next
    case (CallSetEvictable f b)
    obtain oc s' where r: "SetEvictable s f b = (oc, s')" by (cases "SetEvictable s f b")
    then have "recorded_cnt s' = recorded_cnt s" "hist s' = hist s" "k_val s' = k_val s"
      "new_frame s' = new_frame s" "current_timestamp s' = current_timestamp s"
      by (auto simp: SetEvictable_def Let_def split: if_splits)
    with li have "log_inv s' g" by (simp add: log_inv_def)
    with r CallSetEvictable g show ?thesis by simp
  next
    case CallEvict
    show ?thesis
    proof (cases "find (evictable s) (evict_order s)")
      case None
      with Evict_inv_eq [OF inv] have "Evict s = (None, s)" by simp
      with li CallEvict g show ?thesis by simp
    next
      case (Some f)
      with Evict_inv_eq [OF inv] have "Evict s = (Some f, retired s f)" by simp
      with log_inv_retired [OF li [unfolded g], of f] CallEvict g show ?thesis by simp
    qed
  next
    case (CallRemove f)
    from li g have cn: "recorded_cnt s f = length (L f)" by (simp add: log_inv_def)
    consider (thr) "Remove s f = (Threw, s)"
      | (nop) "Remove s f = (Returned, s)" "recorded_cnt s f = 0"
      | (ret) "Remove s f = (Returned, retired s f)"
      unfolding Remove_inv_eq [OF inv]
      by (cases "frame_too_large s f \<or> \<not> evictable s f"; cases "recorded_cnt s f = 0") simp_all
    then show ?thesis
    proof cases
      case thr
      with li CallRemove g show ?thesis by simp
    next
      case nop
      with cn have "L(f := []) = L" by auto
      with nop li CallRemove g show ?thesis by simp
    next
      case ret
      with log_inv_retired [OF li [unfolded g], of f] CallRemove g show ?thesis by simp
    qed
  qed
qed

lemma run_log_inv:
  "replacer_inv s \<Longrightarrow> frames_valid s \<Longrightarrow> log_inv s g \<Longrightarrow>
   current_timestamp s + length cs < 2 ^ 64 \<Longrightarrow>
   \<exists>s'. run s cs = Some s' \<and> replacer_inv s' \<and> frames_valid s' \<and>
        log_inv s' (logged s g cs) \<and>
        current_timestamp s' \<le> current_timestamp s + length cs \<and>
        k_val s' = k_val s \<and> replacer_size s' = replacer_size s"
proof (induction cs arbitrary: s g)
  case Nil
  then show ?case by simp
next
  case (Cons c cs)
  obtain oc s1 where p: "perform s c = (oc, s1)" by (cases "perform s c")
  from Cons.prems have nw: "current_timestamp s + 1 < 2 ^ 64" by simp
  from perform_inv [OF Cons.prems(1,2) nw p]
  have oc: "oc \<noteq> Undefined" and i1: "replacer_inv s1" and f1: "frames_valid s1"
    and t1: "current_timestamp s1 \<le> current_timestamp s + 1"
    and c1: "k_val s1 = k_val s" "replacer_size s1 = replacer_size s" by simp_all
  from perform_log_inv [OF Cons.prems(1) nw Cons.prems(3), of c] p
  have l1: "log_inv s1 (log_call s c g)" by simp
  from t1 Cons.prems(4) have "current_timestamp s1 + length cs < 2 ^ 64" by simp
  from Cons.IH [OF i1 f1 l1 this] obtain s' where
    r: "run s1 cs = Some s'" and i: "replacer_inv s'" and f: "frames_valid s'"
    and l: "log_inv s' (logged s1 (log_call s c g) cs)"
    and t: "current_timestamp s' \<le> current_timestamp s1 + length cs"
    and c: "k_val s' = k_val s1" "replacer_size s' = replacer_size s1" by blast
  from p oc r have "run s (c # cs) = Some s'" by (cases oc) simp_all
  moreover from l p have "log_inv s' (logged s g (c # cs))" by simp
  moreover from t t1 have "current_timestamp s' \<le> current_timestamp s + length (c # cs)" by simp
  ultimately show ?case using i f c c1 by simp
qed

lemma reachable_log_inv:
  assumes "1 \<le> k" and "length cs < 2 ^ 64"
  shows "\<exists>s t. run (LRUKReplacer n k) cs = Some s \<and> replacer_inv s \<and> frames_valid s \<and>
             log_inv s (t, accesses n k cs) \<and>
             k_val s = k \<and> replacer_size s = n \<and> current_timestamp s \<le> length cs"
proof -
  have ts0: "current_timestamp (LRUKReplacer n k) = 0"
    and p: "k_val (LRUKReplacer n k) = k" "replacer_size (LRUKReplacer n k) = n"
    by (simp_all add: LRUKReplacer_def)
  from ts0 assms(2) have "current_timestamp (LRUKReplacer n k) + length cs < 2 ^ 64" by simp
  from run_log_inv [OF replacer_inv_init [OF assms(1)] frames_valid_init log_inv_init this]
  obtain s where "run (LRUKReplacer n k) cs = Some s" "replacer_inv s" "frames_valid s"
    "log_inv s (logged (LRUKReplacer n k) (0, \<lambda>_. []) cs)"
    "current_timestamp s \<le> current_timestamp (LRUKReplacer n k) + length cs"
    "k_val s = k_val (LRUKReplacer n k)"
    "replacer_size s = replacer_size (LRUKReplacer n k)" by blast
  moreover have "logged (LRUKReplacer n k) (0, \<lambda>_. []) cs =
                 (fst (logged (LRUKReplacer n k) (0, \<lambda>_. []) cs), accesses n k cs)"
    by (simp add: accesses_def)
  ultimately show ?thesis unfolding ts0 p by (metis add_0)
qed

lemma cache_key_nth:
  assumes inv: "replacer_inv s" and li: "log_inv s (t, L)" and e: "e \<in> set (cache_frame s)"
  shows "k_val s \<le> length (L (fst e)) \<and> hist s (fst e) \<noteq> [] \<and>
         snd e = hd (hist s (fst e)) \<and>
         snd e = L (fst e) ! (length (L (fst e)) - k_val s) \<and> snd e \<in> set (L (fst e))"
proof -
  from inv have k: "1 \<le> k_val s"
    and mc: "\<And>f. f \<in> fst ` set (cache_frame s) \<longleftrightarrow> k_val s \<le> recorded_cnt s f"
    unfolding replacer_inv_def by blast+
  from li have cn: "\<And>f. recorded_cnt s f = length (L f)"
    and hi: "\<And>f. hist s f = drop (length (L f) - k_val s) (L f)"
    unfolding log_inv_def by simp_all
  let ?f = "fst e"
  from e have "?f \<in> fst ` set (cache_frame s)" by simp
  with mc cn have ge: "k_val s \<le> length (L ?f)" by simp
  with k have lt: "length (L ?f) - k_val s < length (L ?f)" by simp
  from cached_hist_nonempty [OF inv e] have h: "hist s ?f \<noteq> []" "snd e = hd (hist s ?f)"
    by simp_all
  from h(2) have n: "snd e = L ?f ! (length (L ?f) - k_val s)"
    unfolding hi using lt by (simp add: hd_drop_conv_nth)
  with lt have "snd e \<in> set (L ?f)" by simp
  with ge h n show ?thesis by simp
qed

lemma cache_keys_strict:
  assumes inv: "replacer_inv s" and li: "log_inv s (t, L)"
  shows "sorted_wrt (<) (map snd (cache_frame s))"
proof -
  from inv have dn: "distinct (tracked s)" and so: "sorted (map snd (cache_frame s))"
    unfolding replacer_inv_def by blast+
  from li have dj: "\<And>f f'. f \<noteq> f' \<Longrightarrow> set (L f) \<inter> set (L f') = {}"
    unfolding log_inv_def by simp
  from dn have df: "distinct (map fst (cache_frame s))" by (simp add: tracked_def)
  then have dc: "distinct (cache_frame s)" by (simp add: distinct_map)
  have "inj_on snd (set (cache_frame s))"
  proof (rule inj_onI)
    fix a b
    assume a: "a \<in> set (cache_frame s)" and b: "b \<in> set (cache_frame s)"
      and ab: "snd a = snd b"
    from cache_key_nth [OF inv li a] have "snd a \<in> set (L (fst a))" by blast
    moreover from cache_key_nth [OF inv li b] have "snd b \<in> set (L (fst b))" by blast
    ultimately have "snd a \<in> set (L (fst a)) \<inter> set (L (fst b))"
      unfolding ab by blast
    with dj [of "fst a" "fst b"] have "fst a = fst b" by auto
    with ab show "a = b" by (simp add: prod_eq_iff)
  qed
  with dc have "distinct (map snd (cache_frame s))" by (simp add: distinct_map)
  with so show ?thesis by (simp add: strict_sorted_iff)
qed

lemma early_oldest_first:
  assumes li: "log_inv s (t, L)"
  shows "sorted_wrt (<) (map (\<lambda>f. hd (L f)) (rev (new_frame s)))"
proof -
  from li have "sorted_wrt (>) (map (\<lambda>f. hd (L f)) (new_frame s))"
    unfolding log_inv_def by simp
  then have "sorted_wrt (<) (rev (map (\<lambda>f. hd (L f)) (new_frame s)))"
    unfolding sorted_wrt_rev .
  then show ?thesis by (simp only: rev_map)
qed

lemma rerank_key:
  assumes inv: "replacer_inv s" and li: "log_inv s (t, L)"
    and nw: "current_timestamp s + 1 < 2 ^ 64"
    and r: "RecordAccess s f = (Returned, s')"
  shows "current_timestamp s' = current_timestamp s + 1 \<and>
         hist s' f = drop (length (L f) + 1 - k_val s) (L f @ [current_timestamp s']) \<and>
         (\<forall>t0. (f, t0) \<in> set (cache_frame s) \<longrightarrow> t0 < hd (hist s' f))"
proof -
  from inv have k: "1 \<le> k_val s" unfolding replacer_inv_def by blast
  from li have ts: "current_timestamp s = t" unfolding log_inv_def by simp
  from r have ok: "\<not> frame_too_large s f" by (auto simp: RecordAccess_def)
  from RecordAccess_inv_eq [OF inv nw ok] r have s': "s' = accessed s f" by simp
  let ?L' = "L f @ [t + 1]"
  from log_inv_accessed [OF inv li, of f]
  have "\<forall>g. hist s' g = drop (length ((L(f := ?L')) g) - k_val s') ((L(f := ?L')) g)"
    and "\<forall>g. sorted_wrt (<) ((L(f := ?L')) g)"
    unfolding log_inv_def s' fst_conv snd_conv by blast+
  then have "hist s' f = drop (length ((L(f := ?L')) f) - k_val s') ((L(f := ?L')) f)"
    and "sorted_wrt (<) ((L(f := ?L')) f)" by blast+
  then have hi: "hist s' f = drop (length ?L' - k_val s) ?L'" and sl: "sorted_wrt (<) ?L'"
    unfolding s' by (simp_all add: accessed_fields(1))
  have c: "current_timestamp s' = current_timestamp s + 1"
    unfolding s' by (simp add: accessed_fields)
  have key: "t0 < hd (hist s' f)" if m: "(f, t0) \<in> set (cache_frame s)" for t0
  proof -
    from cache_key_nth [OF inv li m]
    have ge: "k_val s \<le> length (L f)" and t0: "t0 = L f ! (length (L f) - k_val s)"
      by simp_all
    let ?i = "length (L f) - k_val s"
    from ge k have i: "?i < length (L f)" by simp
    from ge have j: "length ?L' - k_val s = Suc ?i" by simp
    from i have jl: "Suc ?i < length ?L'" by simp
    from sorted_wrt_nth_less [OF sl _ jl, of ?i] have "?L' ! ?i < ?L' ! Suc ?i" by simp
    moreover from i have "?L' ! ?i = L f ! ?i" by (simp add: nth_append)
    moreover have "hd (hist s' f) = ?L' ! Suc ?i"
      unfolding hi j using jl by (rule hd_drop_conv_nth)
    ultimately show ?thesis using t0 by simp
  qed
  from hi c ts key show ?thesis by simp
qed

section \<open>The claims\<close>

lemmas eval_defs = RecordAccess_def LRUKReplacer_def frame_too_large_def Evict_def Size_def
  size_incr_def size_decr_def cache_insert_def partitioned_def list_insert_def CmpTimestamp_def
  retire_def Let_def SetEvictable_def Remove_def

subsection \<open>Frame ids that the guard rejects\<close>

lemma sint_capacity:
  assumes "n < 2 ^ 31"
  shows "sint (word_of_nat n :: frame_id_t) = int n"
proof -
  have "sint (word_of_nat n :: frame_id_t) = signed_take_bit 31 (int n)"
    by (simp add: signed_of_nat)
  also have "\<dots> = int n"
  proof (rule signed_take_bit_int_eq_self)
    show "- (2 ^ 31) \<le> int n" by simp
    from assms have "int n < int (2 ^ 31)" by (simp only: of_nat_less_iff)
    then show "int n < 2 ^ 31" by simp
  qed
  finally show ?thesis .
qed

lemma cache_insert_not_threw: "fst (cache_insert s f) \<noteq> Threw"
  by (simp add: cache_insert_def Let_def split: list.split)

lemma negative_frame_passes:
  assumes "replacer_size s < 2 ^ 31" and "sint frame_id < 0"
  shows "\<not> frame_too_large s frame_id"
  using assms by (simp add: frame_too_large_def sint_capacity)

text \<open>
  Claim C4, as the code has it, for a capacity that fits the frame id type: for every frame
  id greater than the capacity, each of \<open>RecordAccess\<close>, \<open>SetEvictable\<close> and \<open>Remove\<close>
  throws and leaves the whole state as it was. No negative frame id is rejected for its
  range: with it \<open>RecordAccess\<close> and \<open>SetEvictable\<close> do not throw, and \<open>Remove\<close> throws
  exactly when the evictable flag of the frame is false, as it does for every frame,
  leaving the state as it was.
\<close>

theorem invalid_frame_rejected:
  assumes "replacer_size s < 2 ^ 31"
  shows "(int (replacer_size s) < sint frame_id \<longrightarrow>
            RecordAccess s frame_id = (Threw, s) \<and>
            SetEvictable s frame_id b = (Threw, s) \<and>
            Remove s frame_id = (Threw, s)) \<and>
         (sint frame_id < 0 \<longrightarrow>
            fst (RecordAccess s frame_id) \<noteq> Threw \<and>
            fst (SetEvictable s frame_id b) = Returned \<and>
            (fst (Remove s frame_id) = Threw \<longleftrightarrow> \<not> evictable s frame_id) \<and>
            (\<not> evictable s frame_id \<longrightarrow> Remove s frame_id = (Threw, s)))"
proof (intro conjI impI)
  assume "int (replacer_size s) < sint frame_id"
  with assms have g: "frame_too_large s frame_id"
    by (simp add: frame_too_large_def sint_capacity)
  from g show "RecordAccess s frame_id = (Threw, s)" by (simp add: RecordAccess_def)
  from g show "SetEvictable s frame_id b = (Threw, s)" by (simp add: SetEvictable_def)
  from g show "Remove s frame_id = (Threw, s)" by (simp add: Remove_def)
next
  assume "sint frame_id < 0"
  with assms have g: "\<not> frame_too_large s frame_id" by (rule negative_frame_passes)
  from g show "fst (RecordAccess s frame_id) \<noteq> Threw"
    by (simp add: RecordAccess_def Let_def cache_insert_not_threw)
  from g show "fst (SetEvictable s frame_id b) = Returned"
    by (simp add: SetEvictable_def Let_def)
  from g show "fst (Remove s frame_id) = Threw \<longleftrightarrow> \<not> evictable s frame_id"
    by (simp add: Remove_def Let_def)
next
  assume "\<not> evictable s frame_id"
  then show "Remove s frame_id = (Threw, s)" by (simp add: Remove_def)
qed

theorem invalid_frame_rejected_witness:
  "replacer_size (LRUKReplacer 7 2) < 2 ^ 31 \<and>
   int (replacer_size (LRUKReplacer 7 2)) < sint (8 :: frame_id_t) \<and>
   RecordAccess (LRUKReplacer 7 2) 8 = (Threw, LRUKReplacer 7 2) \<and>
   SetEvictable (LRUKReplacer 7 2) 8 True = (Threw, LRUKReplacer 7 2) \<and>
   Remove (LRUKReplacer 7 2) 8 = (Threw, LRUKReplacer 7 2) \<and>
   sint (- 1 :: frame_id_t) < 0 \<and>
   fst (RecordAccess (LRUKReplacer 7 2) (- 1)) \<noteq> Threw \<and>
   fst (SetEvictable (LRUKReplacer 7 2) (- 1) True) = Returned \<and>
   \<not> evictable (LRUKReplacer 7 2) (- 1) \<and>
   Remove (LRUKReplacer 7 2) (- 1) = (Threw, LRUKReplacer 7 2)"
proof -
  have a: "replacer_size (LRUKReplacer 7 2) < 2 ^ 31" by (simp add: LRUKReplacer_def)
  have b: "int (replacer_size (LRUKReplacer 7 2)) < sint (8 :: frame_id_t)"
    by (simp add: LRUKReplacer_def)
  have c: "sint (- 1 :: frame_id_t) < 0" by simp
  have d: "\<not> evictable (LRUKReplacer 7 2) (- 1)" by (simp add: LRUKReplacer_def)
  from invalid_frame_rejected [OF a, of 8 True] b
  have "RecordAccess (LRUKReplacer 7 2) 8 = (Threw, LRUKReplacer 7 2) \<and>
        SetEvictable (LRUKReplacer 7 2) 8 True = (Threw, LRUKReplacer 7 2) \<and>
        Remove (LRUKReplacer 7 2) 8 = (Threw, LRUKReplacer 7 2)" by blast
  moreover from invalid_frame_rejected [OF a, of "- 1" True] c d
  have "fst (RecordAccess (LRUKReplacer 7 2) (- 1)) \<noteq> Threw \<and>
        fst (SetEvictable (LRUKReplacer 7 2) (- 1) True) = Returned \<and>
        Remove (LRUKReplacer 7 2) (- 1) = (Threw, LRUKReplacer 7 2)" by blast
  ultimately show ?thesis using a b c d by blast
qed

text \<open>
  Claim C4 as stated fails: on a replacer of capacity 7, the frame id 7 (equal to the
  capacity) and the frame id -1 are both outside \<open>[0, capacity)\<close>, and for each of them
  \<open>RecordAccess\<close> returns and records the access, \<open>SetEvictable\<close> returns, and \<open>Remove\<close>
  after the access returns.
\<close>

theorem frame_at_capacity_or_negative_accepted:
  "sint (7 :: frame_id_t) = int (replacer_size (LRUKReplacer 7 2)) \<and>
   fst (RecordAccess (LRUKReplacer 7 2) 7) = Returned \<and>
   recorded_cnt (snd (RecordAccess (LRUKReplacer 7 2) 7)) 7 = 1 \<and>
   fst (SetEvictable (LRUKReplacer 7 2) 7 True) = Returned \<and>
   fst (Remove (snd (RecordAccess (LRUKReplacer 7 2) 7)) 7) = Returned \<and>
   sint (- 1 :: frame_id_t) = - 1 \<and>
   fst (RecordAccess (LRUKReplacer 7 2) (- 1)) = Returned \<and>
   recorded_cnt (snd (RecordAccess (LRUKReplacer 7 2) (- 1))) (- 1) = 1 \<and>
   fst (SetEvictable (LRUKReplacer 7 2) (- 1) True) = Returned \<and>
   fst (Remove (snd (RecordAccess (LRUKReplacer 7 2) (- 1))) (- 1)) = Returned"
  by (simp add: eval_defs)

subsection \<open>Remove on a frame that is not listed or not evictable\<close>

text \<open>
  Claim C5 at a failing input: on a fresh replacer of capacity 7 the frame 1 is in range
  and has never been accessed, and \<open>Remove\<close> throws instead of returning. Its flag in
  \<open>evictable\<close> is the value-initialised \<open>false\<close>, which the guard of line 114 tests before
  line 118 looks at the count.
\<close>

theorem Remove_never_accessed_throws:
  "recorded_cnt (LRUKReplacer 7 2) 1 = 0 \<and> \<not> frame_too_large (LRUKReplacer 7 2) 1 \<and>
   Remove (LRUKReplacer 7 2) 1 = (Threw, LRUKReplacer 7 2)"
  by (simp add: eval_defs)

text \<open>
  Claim C6: for every state and every frame with a positive access count whose evictable
  flag is false, \<open>Remove\<close> throws and returns the state it was given: histories, counts,
  both lists, flags and size are as before.
\<close>

theorem Remove_pinned_throws:
  assumes "0 < recorded_cnt s frame_id" and "\<not> evictable s frame_id"
  shows "Remove s frame_id = (Threw, s)"
  using assms by (simp add: Remove_def)

theorem Remove_pinned_throws_witness:
  "0 < recorded_cnt (snd (SetEvictable (snd (RecordAccess (LRUKReplacer 7 2) 1)) 1 False)) 1 \<and>
   \<not> evictable (snd (SetEvictable (snd (RecordAccess (LRUKReplacer 7 2) 1)) 1 False)) 1 \<and>
   Remove (snd (SetEvictable (snd (RecordAccess (LRUKReplacer 7 2) 1)) 1 False)) 1 =
     (Threw, snd (SetEvictable (snd (RecordAccess (LRUKReplacer 7 2) 1)) 1 False))"
proof -
  let ?s = "snd (SetEvictable (snd (RecordAccess (LRUKReplacer 7 2) 1)) 1 False)"
  have c: "0 < recorded_cnt ?s 1" by (simp add: eval_defs)
  have e: "\<not> evictable ?s 1" by (simp add: eval_defs)
  from c e Remove_pinned_throws [OF c e] show ?thesis by blast
qed

subsection \<open>Evict\<close>

lemma tracked_iff_counted:
  assumes inv: "replacer_inv s"
  shows "f \<in> set (tracked s) \<longleftrightarrow> 0 < recorded_cnt s f"
proof -
  from inv have k: "1 \<le> k_val s"
    and mn: "\<And>f. f \<in> set (new_frame s) \<longleftrightarrow> 0 < recorded_cnt s f \<and> recorded_cnt s f < k_val s"
    and mc: "\<And>f. f \<in> fst ` set (cache_frame s) \<longleftrightarrow> k_val s \<le> recorded_cnt s f"
    unfolding replacer_inv_def by blast+
  show ?thesis unfolding set_tracked Un_iff mn mc using k by arith
qed

lemma Evict_inv_cases:
  assumes inv: "replacer_inv s"
  shows "case find (evictable s) (rev (new_frame s) @ map fst (cache_frame s)) of
           None \<Rightarrow> Evict s = (None, s) \<and> \<not> (\<exists>f. 0 < recorded_cnt s f \<and> evictable s f)
         | Some f \<Rightarrow>
             fst (Evict s) = Some f \<and> 0 < recorded_cnt s f \<and> evictable s f \<and>
             hist (snd (Evict s)) f = [] \<and> recorded_cnt (snd (Evict s)) f = 0 \<and>
             f \<notin> set (new_frame (snd (Evict s))) \<and>
             f \<notin> fst ` set (cache_frame (snd (Evict s))) \<and>
             Size (snd (Evict s)) + 1 = Size s"
proof (cases "find (evictable s) (evict_order s)")
  case None
  then have "\<not> (\<exists>f. f \<in> set (tracked s) \<and> evictable s f)"
    by (simp add: find_None_iff set_evict_order)
  then have "\<not> (\<exists>f. 0 < recorded_cnt s f \<and> evictable s f)"
    by (simp add: tracked_iff_counted [OF inv])
  with None Evict_inv_eq [OF inv] show ?thesis by (simp add: evict_order_def)
next
  case (Some f)
  from find_SomeD [OF Some] have mem: "f \<in> set (tracked s)" and ev: "evictable s f"
    by (simp_all add: set_evict_order)
  from mem have pos: "0 < recorded_cnt s f" by (simp add: tracked_iff_counted [OF inv])
  from curr_size_pos [OF inv mem ev] have sz: "curr_size s - 1 + 1 = curr_size s" by simp
  from Some Evict_inv_eq [OF inv] have e: "Evict s = (Some f, retired s f)" by simp
  have "hist (retired s f) f = []" "recorded_cnt (retired s f) f = 0"
    "f \<notin> set (new_frame (retired s f))" "f \<notin> fst ` set (cache_frame (retired s f))"
    "Size (retired s f) + 1 = Size s"
    using sz by (auto simp: retired_def Size_def)
  with Some e pos ev show ?thesis by (simp add: evict_order_def)
qed

text \<open>
  Claim C1: in every state reached by a sequence of calls \<open>cs\<close> (\<open>k \<ge> 1\<close>, fewer than
  \<open>2 ^ 64\<close> calls), with the logs \<open>accesses n k cs\<close> of the accesses made: the count of a
  frame is the number of its accesses since it was last retired; \<open>new_frame\<close> holds the
  frames with fewer than \<open>k\<close> of them and \<open>cache_frame\<close> those with at least \<open>k\<close>.
  \<open>new_frame\<close> read from the back is in strictly ascending order of the tick of the first
  access of its frames, the tick at which each was inserted: oldest insertion first.
  \<open>cache_frame\<close> is in strictly ascending order of its timestamps, and the timestamp of an
  entry is the tick of the Kth most recent access of its frame. \<open>Evict\<close> returns the first
  frame with the evictable flag set in \<open>new_frame\<close> read from the back followed by
  \<open>cache_frame\<close> read from the front; it returns nothing, and changes nothing, exactly
  when no counted frame is evictable. On success the frame's history and count are
  cleared, it is in neither list and \<open>Size\<close> is one less. When a frame of \<open>new_frame\<close> is
  evictable, the frame returned is one of \<open>new_frame\<close> and not one of \<open>cache_frame\<close>.
\<close>

theorem Evict_early_before_stable:
  assumes "1 \<le> k" and "length cs < 2 ^ 64"
  shows "\<exists>s. run (LRUKReplacer n k) cs = Some s \<and>
           (\<forall>f. recorded_cnt s f = length (accesses n k cs f) \<and>
                sorted_wrt (<) (accesses n k cs f)) \<and>
           (\<forall>f. f \<in> set (new_frame s) \<longleftrightarrow>
                0 < length (accesses n k cs f) \<and> length (accesses n k cs f) < k) \<and>
           (\<forall>f. f \<in> fst ` set (cache_frame s) \<longleftrightarrow> k \<le> length (accesses n k cs f)) \<and>
           sorted_wrt (<) (map (\<lambda>f. hd (accesses n k cs f)) (rev (new_frame s))) \<and>
           sorted_wrt (<) (map snd (cache_frame s)) \<and>
           (\<forall>e \<in> set (cache_frame s).
              snd e = accesses n k cs (fst e) ! (length (accesses n k cs (fst e)) - k)) \<and>
           (case find (evictable s) (rev (new_frame s) @ map fst (cache_frame s)) of
              None \<Rightarrow> Evict s = (None, s) \<and> \<not> (\<exists>f. 0 < recorded_cnt s f \<and> evictable s f)
            | Some f \<Rightarrow>
                fst (Evict s) = Some f \<and> 0 < recorded_cnt s f \<and> evictable s f \<and>
                hist (snd (Evict s)) f = [] \<and> recorded_cnt (snd (Evict s)) f = 0 \<and>
                f \<notin> set (new_frame (snd (Evict s))) \<and>
                f \<notin> fst ` set (cache_frame (snd (Evict s))) \<and>
                Size (snd (Evict s)) + 1 = Size s) \<and>
           ((\<exists>g. g \<in> set (new_frame s) \<and> evictable s g) \<longrightarrow>
            (\<exists>f. fst (Evict s) = Some f \<and> f \<in> set (new_frame s) \<and>
                 f \<notin> fst ` set (cache_frame s)))"
proof -
  from reachable_log_inv [OF assms, of n] obtain s t where
    r: "run (LRUKReplacer n k) cs = Some s" and inv: "replacer_inv s"
    and li: "log_inv s (t, accesses n k cs)" and k: "k_val s = k"
    by blast
  let ?L = "accesses n k cs"
  from inv have dn: "distinct (tracked s)"
    and mn: "\<And>f. f \<in> set (new_frame s) \<longleftrightarrow> 0 < recorded_cnt s f \<and> recorded_cnt s f < k_val s"
    and mc: "\<And>f. f \<in> fst ` set (cache_frame s) \<longleftrightarrow> k_val s \<le> recorded_cnt s f"
    unfolding replacer_inv_def by blast+
  from li have cn: "\<And>f. recorded_cnt s f = length (?L f)"
    and sl: "\<And>f. sorted_wrt (<) (?L f)"
    unfolding log_inv_def by simp_all
  have a: "\<forall>f. recorded_cnt s f = length (?L f) \<and> sorted_wrt (<) (?L f)"
    using cn sl by simp
  have b: "\<forall>f. f \<in> set (new_frame s) \<longleftrightarrow> 0 < length (?L f) \<and> length (?L f) < k"
    using mn unfolding cn k by simp
  have c: "\<forall>f. f \<in> fst ` set (cache_frame s) \<longleftrightarrow> k \<le> length (?L f)"
    using mc unfolding cn k by simp
  have d: "\<forall>e \<in> set (cache_frame s). snd e = ?L (fst e) ! (length (?L (fst e)) - k)"
    using cache_key_nth [OF inv li] unfolding k by blast
  have early: "\<exists>f. fst (Evict s) = Some f \<and> f \<in> set (new_frame s) \<and>
                   f \<notin> fst ` set (cache_frame s)"
    if "\<exists>g. g \<in> set (new_frame s) \<and> evictable s g"
  proof -
    from that have "find (evictable s) (rev (new_frame s)) \<noteq> None"
      by (simp add: find_None_iff)
    then obtain f where f: "find (evictable s) (rev (new_frame s)) = Some f" by blast
    then have "find (evictable s) (evict_order s) = Some f"
      by (simp add: evict_order_def find_append_eq)
    with Evict_inv_eq [OF inv] have "fst (Evict s) = Some f" by simp
    moreover from find_SomeD [OF f] have fn: "f \<in> set (new_frame s)" by simp
    moreover from fn dn have "f \<notin> fst ` set (cache_frame s)" by (auto simp: tracked_def)
    ultimately show ?thesis by blast
  qed
  from r a b c early_oldest_first [OF li] cache_keys_strict [OF inv li] d
    Evict_inv_cases [OF inv] early
  show ?thesis by blast
qed

theorem Evict_early_before_stable_witness:
  "\<exists>s. run (LRUKReplacer 7 2)
          [CallRecordAccess 1, CallRecordAccess 2, CallRecordAccess 3, CallRecordAccess 4,
           CallRecordAccess 1, CallSetEvictable 2 False] = Some s \<and>
       new_frame s = [4, 3, 2] \<and> cache_frame s = [(1, 1)] \<and>
       map (\<lambda>f. hd (accesses 7 2
          [CallRecordAccess 1, CallRecordAccess 2, CallRecordAccess 3, CallRecordAccess 4,
           CallRecordAccess 1, CallSetEvictable 2 False] f)) (rev (new_frame s)) = [2, 3, 4] \<and>
       accesses 7 2
          [CallRecordAccess 1, CallRecordAccess 2, CallRecordAccess 3, CallRecordAccess 4,
           CallRecordAccess 1, CallSetEvictable 2 False] 1 = [1, 5] \<and>
       evictable s 1 \<and> \<not> evictable s 2 \<and> evictable s 3 \<and> evictable s 4 \<and>
       fst (Evict s) = Some 3 \<and> Size (snd (Evict s)) + 1 = Size s"
proof -
  let ?cs = "[CallRecordAccess 1, CallRecordAccess 2, CallRecordAccess 3, CallRecordAccess 4,
           CallRecordAccess 1, CallSetEvictable 2 False]"
  have k: "1 \<le> (2::nat)" by simp
  have l: "length ?cs < 2 ^ 64" by simp
  from Evict_early_before_stable [OF k l, of 7] obtain s where
    r: "run (LRUKReplacer 7 2) ?cs = Some s"
    and c: "case find (evictable s) (rev (new_frame s) @ map fst (cache_frame s)) of
              None \<Rightarrow> Evict s = (None, s) \<and> \<not> (\<exists>f. 0 < recorded_cnt s f \<and> evictable s f)
            | Some f \<Rightarrow>
                fst (Evict s) = Some f \<and> 0 < recorded_cnt s f \<and> evictable s f \<and>
                hist (snd (Evict s)) f = [] \<and> recorded_cnt (snd (Evict s)) f = 0 \<and>
                f \<notin> set (new_frame (snd (Evict s))) \<and>
                f \<notin> fst ` set (cache_frame (snd (Evict s))) \<and>
                Size (snd (Evict s)) + 1 = Size s"
    by blast
  let ?t = "the (run (LRUKReplacer 7 2) ?cs)"
  have "new_frame ?t = [4, 3, 2] \<and> cache_frame ?t = [(1, 1)] \<and> evictable ?t 1 \<and>
        \<not> evictable ?t 2 \<and> evictable ?t 3 \<and> evictable ?t 4"
    by (simp add: eval_defs)
  then have e: "new_frame s = [4, 3, 2]" "cache_frame s = [(1, 1)]" "evictable s 1"
    "\<not> evictable s 2" "evictable s 3" "evictable s 4"
    unfolding r option.sel by simp_all
  have a: "accesses 7 2 ?cs 1 = [1, 5] \<and> accesses 7 2 ?cs 2 = [2] \<and>
           accesses 7 2 ?cs 3 = [3] \<and> accesses 7 2 ?cs 4 = [4]"
    by (simp add: accesses_def eval_defs)
  from e have "find (evictable s) (rev (new_frame s) @ map fst (cache_frame s)) = Some 3"
    by simp
  with c have "fst (Evict s) = Some 3 \<and> Size (snd (Evict s)) + 1 = Size s" by simp
  with r e a show ?thesis by simp
qed

subsection \<open>Size and the length of the histories\<close>

lemma inv_Size_card:
  assumes inv: "replacer_inv s"
  shows "Size s = card {f. 0 < recorded_cnt s f \<and> evictable s f}"
proof -
  from inv have k: "1 \<le> k_val s"
    and dn: "distinct (tracked s)"
    and mn: "\<And>f. f \<in> set (new_frame s) \<longleftrightarrow> 0 < recorded_cnt s f \<and> recorded_cnt s f < k_val s"
    and mc: "\<And>f. f \<in> fst ` set (cache_frame s) \<longleftrightarrow> k_val s \<le> recorded_cnt s f"
    and sz: "curr_size s = length (filter (evictable s) (tracked s))"
    unfolding replacer_inv_def by blast+
  have "f \<in> set (tracked s) \<longleftrightarrow> 0 < recorded_cnt s f" for f
    unfolding set_tracked Un_iff mn mc using k by arith
  then have e: "{f. 0 < recorded_cnt s f \<and> evictable s f} = set (filter (evictable s) (tracked s))"
    by auto
  from dn have d: "card (set (filter (evictable s) (tracked s))) =
                   length (filter (evictable s) (tracked s))"
    by (intro distinct_card) simp
  show ?thesis unfolding Size_def sz e d ..
qed

text \<open>
  Claim C2: after every sequence of \<open>RecordAccess\<close>, \<open>SetEvictable\<close>, \<open>Evict\<close> and \<open>Remove\<close>
  calls on a replacer constructed with \<open>k \<ge> 1\<close> (shorter than \<open>2 ^ 64\<close> calls, so that no
  \<open>size_t\<close> counter has wrapped around) the run has met no undefined behaviour and \<open>Size\<close>
  is the number of frames whose access count is positive and whose evictable flag is set.
  Every prefix of a sequence is a sequence, so this holds after each call.
\<close>

theorem Size_counts_evictable_frames:
  assumes "1 \<le> k" and "length cs < 2 ^ 64"
  shows "\<exists>s. run (LRUKReplacer n k) cs = Some s \<and>
             Size s = card {f. 0 < recorded_cnt s f \<and> evictable s f}"
  using reachable_inv [OF assms, of n] inv_Size_card by blast

theorem Size_counts_evictable_frames_witness:
  "\<exists>s. run (LRUKReplacer 7 2)
          [CallRecordAccess 1, CallRecordAccess 2, CallSetEvictable 1 False, CallRecordAccess 1,
           CallEvict, CallRecordAccess 3, CallRemove 3] = Some s \<and>
       Size s = card {f. 0 < recorded_cnt s f \<and> evictable s f} \<and> Size s = 0 \<and>
       recorded_cnt s 1 = 2"
proof -
  let ?cs = "[CallRecordAccess 1, CallRecordAccess 2, CallSetEvictable 1 False, CallRecordAccess 1,
           CallEvict, CallRecordAccess 3, CallRemove 3]"
  have k: "1 \<le> (2::nat)" by simp
  have l: "length ?cs < 2 ^ 64" by simp
  from Size_counts_evictable_frames [OF k l, of 7] obtain s where
    r: "run (LRUKReplacer 7 2) ?cs = Some s"
    and c: "Size s = card {f. 0 < recorded_cnt s f \<and> evictable s f}" by blast
  have "Size (the (run (LRUKReplacer 7 2) ?cs)) = 0 \<and>
        recorded_cnt (the (run (LRUKReplacer 7 2) ?cs)) 1 = 2"
    by (simp add: eval_defs)
  then have "Size s = 0 \<and> recorded_cnt s 1 = 2" unfolding r option.sel .
  with r c show ?thesis by blast
qed

text \<open>
  Claim C3: after every sequence of calls (of \<open>RecordAccess\<close> in particular) on a replacer
  constructed with \<open>k \<ge> 1\<close>, shorter than \<open>2 ^ 64\<close> calls, the access history of every
  frame holds at most \<open>k\<close> timestamps.
\<close>

theorem history_length_bounded:
  assumes "1 \<le> k" and "length cs < 2 ^ 64"
  shows "\<exists>s. run (LRUKReplacer n k) cs = Some s \<and> length (hist s frame_id) \<le> k"
proof -
  from reachable_inv [OF assms, of n] obtain s where
    r: "run (LRUKReplacer n k) cs = Some s" and inv: "replacer_inv s" and k: "k_val s = k"
    by blast
  from inv have "length (hist s frame_id) = min (recorded_cnt s frame_id) (k_val s)"
    unfolding replacer_inv_def by blast
  with r k show ?thesis by simp
qed

theorem history_length_bounded_witness:
  "\<exists>s. run (LRUKReplacer 7 2)
          [CallRecordAccess 1, CallRecordAccess 1, CallRecordAccess 1, CallRecordAccess 1] = Some s \<and>
       length (hist s 1) \<le> 2 \<and> hist s 1 = [3, 4] \<and> recorded_cnt s 1 = 4"
proof -
  let ?cs = "[CallRecordAccess 1, CallRecordAccess 1, CallRecordAccess 1, CallRecordAccess 1]"
  have k: "1 \<le> (2::nat)" by simp
  have l: "length ?cs < 2 ^ 64" by simp
  from history_length_bounded [OF k l, of 7 1] obtain s where
    r: "run (LRUKReplacer 7 2) ?cs = Some s" and c: "length (hist s 1) \<le> 2" by blast
  have "hist (the (run (LRUKReplacer 7 2) ?cs)) 1 = [3, 4] \<and>
        recorded_cnt (the (run (LRUKReplacer 7 2) ?cs)) 1 = 4"
    by (simp add: eval_defs)
  then have "hist s 1 = [3, 4] \<and> recorded_cnt s 1 = 4" unfolding r option.sel .
  with r c show ?thesis by blast
qed

subsection \<open>Reusing a frame id\<close>

lemma retired_state:
  assumes inv: "replacer_inv s" and fv: "frames_valid s"
    and r: "Evict s = (Some f, s1) \<or> Remove s f = (Returned, s1)"
  shows "replacer_inv s1 \<and> recorded_cnt s1 f = 0 \<and> \<not> frame_too_large s1 f \<and>
         current_timestamp s1 = current_timestamp s \<and> k_val s1 = k_val s \<and>
         (s1 = s \<and> f \<notin> set (tracked s) \<or> s1 = retired s f)"
proof -
  from r consider (same) "s1 = s" "recorded_cnt s f = 0" "\<not> frame_too_large s f"
    | (gone) "s1 = retired s f" "f \<in> set (tracked s)" "evictable s f"
  proof
    assume e: "Evict s = (Some f, s1)"
    then obtain g where g: "find (evictable s) (evict_order s) = Some g"
      by (cases "find (evictable s) (evict_order s)") (simp_all add: Evict_inv_eq [OF inv])
    with e have "g = f" "s1 = retired s f" by (auto simp: Evict_inv_eq [OF inv])
    moreover from find_SomeD [OF g] have "g \<in> set (tracked s)" "evictable s g"
      by (simp_all add: set_evict_order)
    ultimately show ?thesis using gone by simp
  next
    assume e: "Remove s f = (Returned, s1)"
    then have a: "\<not> frame_too_large s f" "evictable s f"
      by (auto simp: Remove_inv_eq [OF inv] split: if_splits)
    show ?thesis
    proof (cases "recorded_cnt s f = 0")
      case True
      with e a have "s1 = s" by (simp add: Remove_inv_eq [OF inv])
      with True a show ?thesis using same by simp
    next
      case False
      with e a have "s1 = retired s f" by (simp add: Remove_inv_eq [OF inv])
      moreover from False have "f \<in> set (tracked s)" by (simp add: tracked_iff_counted [OF inv])
      ultimately show ?thesis using a gone by simp
    qed
  qed
  then show ?thesis
  proof cases
    case same
    then have "f \<notin> set (tracked s)" by (simp add: tracked_iff_counted [OF inv])
    with same inv show ?thesis by simp
  next
    case gone
    from gone(2) have "0 < recorded_cnt s f" by (simp add: tracked_iff_counted [OF inv])
    with fv have "\<not> frame_too_large s f" by (simp add: frames_valid_def)
    then have "\<not> frame_too_large (retired s f) f"
      by (simp add: frame_too_large_def retired_def)
    with inv_retired [OF inv gone(2,3)] gone(1) show ?thesis by (simp add: retired_def)
  qed
qed

lemma fresh_access:
  assumes inv: "replacer_inv s" and nw: "current_timestamp s + 1 < 2 ^ 64"
    and ok: "\<not> frame_too_large s f" and c0: "recorded_cnt s f = 0"
  shows "\<exists>s2. RecordAccess s f = (Returned, s2) \<and> recorded_cnt s2 f = 1 \<and>
           hist s2 f = [current_timestamp s2] \<and>
           current_timestamp s2 = current_timestamp s + 1 \<and> evictable s2 f \<and>
           (2 \<le> k_val s \<longrightarrow> new_frame s2 = f # new_frame s \<and> cache_frame s2 = cache_frame s) \<and>
           (k_val s = 1 \<longrightarrow> new_frame s2 = new_frame s \<and>
              cache_frame s2 =
                list_insert (upper_bound (cache_frame s) (f, current_timestamp s2))
                  (f, current_timestamp s2) (cache_frame s))"
proof -
  from inv have k: "1 \<le> k_val s"
    and hl: "length (hist s f) = min (recorded_cnt s f) (k_val s)"
    unfolding replacer_inv_def by blast+
  from hl c0 have h0: "hist s f = []" by simp
  from c0 have nt: "f \<notin> set (tracked s)" by (simp add: tracked_iff_counted [OF inv])
  then have fl: "filter (\<lambda>y. y \<noteq> f) (new_frame s) = new_frame s"
    "filter (\<lambda>e. fst e \<noteq> f) (cache_frame s) = cache_frame s"
    by (auto simp: set_tracked filter_id_conv)
  let ?s = "accessed s f"
  have a: "recorded_cnt ?s f = 1" "current_timestamp ?s = current_timestamp s + 1"
    "evictable ?s f" "hist ?s f = [current_timestamp s + 1]"
    using k c0 h0 by (simp_all add: accessed_fields)
  have b: "new_frame ?s = f # new_frame s \<and> cache_frame ?s = cache_frame s" if "2 \<le> k_val s"
    using that c0 by (simp add: accessed_lists_less)
  have c: "new_frame ?s = new_frame s \<and>
           cache_frame ?s = list_insert (upper_bound (cache_frame s) (f, current_timestamp ?s))
                  (f, current_timestamp ?s) (cache_frame s)" if "k_val s = 1"
  proof -
    from that c0 have ge: "k_val s \<le> recorded_cnt s f + 1" by simp
    show ?thesis
      unfolding accessed_lists_ge(1,3) [OF ge] fl a by simp
  qed
  from RecordAccess_inv_eq [OF inv nw ok] a b c show ?thesis by simp
qed

text \<open>
  Claim C7, as the code has it: in every state reached by a sequence of calls (\<open>k \<ge> 1\<close>,
  no counter wrapped), once \<open>Evict\<close> has returned the frame \<open>f\<close> or \<open>Remove\<close> of \<open>f\<close> has
  returned, the next \<open>RecordAccess\<close> of \<open>f\<close> returns with the count of \<open>f\<close> at 1, its
  history holding the new timestamp alone and its evictable flag set. For \<open>k \<ge> 2\<close> the
  frame is at the front of \<open>new_frame\<close>, the most recent end, and \<open>cache_frame\<close> is as
  before; for \<open>k = 1\<close> the first access is the Kth one, \<open>new_frame\<close> is as before and the
  frame is in \<open>cache_frame\<close> at the upper bound of its new timestamp.
\<close>

theorem reused_frame_is_brand_new:
  assumes "1 \<le> k" and "length cs + 1 < 2 ^ 64"
  shows "\<exists>s. run (LRUKReplacer n k) cs = Some s \<and>
           (\<forall>f s1. Evict s = (Some f, s1) \<or> Remove s f = (Returned, s1) \<longrightarrow>
              (\<exists>s2. RecordAccess s1 f = (Returned, s2) \<and> recorded_cnt s2 f = 1 \<and>
                 hist s2 f = [current_timestamp s2] \<and>
                 current_timestamp s2 = current_timestamp s1 + 1 \<and> evictable s2 f \<and>
                 (2 \<le> k \<longrightarrow> new_frame s2 = f # new_frame s1 \<and> cache_frame s2 = cache_frame s1) \<and>
                 (k = 1 \<longrightarrow> new_frame s2 = new_frame s1 \<and>
                    cache_frame s2 =
                      list_insert (upper_bound (cache_frame s1) (f, current_timestamp s2))
                        (f, current_timestamp s2) (cache_frame s1))))"
proof -
  from assms(2) have l: "length cs < 2 ^ 64" by simp
  from reachable_inv [OF assms(1) l, of n] obtain s where
    r: "run (LRUKReplacer n k) cs = Some s" and inv: "replacer_inv s" and fv: "frames_valid s"
    and k: "k_val s = k" and t: "current_timestamp s \<le> length cs"
    by blast
  have "\<exists>s2. RecordAccess s1 f = (Returned, s2) \<and> recorded_cnt s2 f = 1 \<and>
                 hist s2 f = [current_timestamp s2] \<and>
                 current_timestamp s2 = current_timestamp s1 + 1 \<and> evictable s2 f \<and>
                 (2 \<le> k \<longrightarrow> new_frame s2 = f # new_frame s1 \<and> cache_frame s2 = cache_frame s1) \<and>
                 (k = 1 \<longrightarrow> new_frame s2 = new_frame s1 \<and>
                    cache_frame s2 =
                      list_insert (upper_bound (cache_frame s1) (f, current_timestamp s2))
                        (f, current_timestamp s2) (cache_frame s1))"
    if h: "Evict s = (Some f, s1) \<or> Remove s f = (Returned, s1)" for f s1
  proof -
    from retired_state [OF inv fv h] have i1: "replacer_inv s1" and c0: "recorded_cnt s1 f = 0"
      and ok: "\<not> frame_too_large s1 f" and t1: "current_timestamp s1 = current_timestamp s"
      and k1: "k_val s1 = k_val s" by simp_all
    from t t1 assms(2) have nw: "current_timestamp s1 + 1 < 2 ^ 64" by simp
    from fresh_access [OF i1 nw ok c0] show ?thesis unfolding k1 k .
  qed
  with r show ?thesis by blast
qed

theorem reused_frame_is_brand_new_witness:
  "\<exists>s s1 s2. run (LRUKReplacer 7 2) [CallRecordAccess 1, CallRecordAccess 2] = Some s \<and>
      Evict s = (Some 1, s1) \<and> RecordAccess s1 1 = (Returned, s2) \<and>
      recorded_cnt s2 1 = 1 \<and> hist s2 1 = [3] \<and> evictable s2 1 \<and> new_frame s2 = [1, 2]"
proof -
  let ?cs = "[CallRecordAccess 1, CallRecordAccess 2]"
  have k: "1 \<le> (2::nat)" by simp
  have l: "length ?cs + 1 < 2 ^ 64" by simp
  from reused_frame_is_brand_new [OF k l, of 7] obtain s where
    r: "run (LRUKReplacer 7 2) ?cs = Some s"
    and c: "\<And>f s1. Evict s = (Some f, s1) \<or> Remove s f = (Returned, s1) \<Longrightarrow>
              (\<exists>s2. RecordAccess s1 f = (Returned, s2) \<and> recorded_cnt s2 f = 1 \<and>
                 hist s2 f = [current_timestamp s2] \<and>
                 current_timestamp s2 = current_timestamp s1 + 1 \<and> evictable s2 f \<and>
                 ((2::nat) \<le> 2 \<longrightarrow> new_frame s2 = f # new_frame s1 \<and> cache_frame s2 = cache_frame s1) \<and>
                 ((2::nat) = 1 \<longrightarrow> new_frame s2 = new_frame s1 \<and>
                    cache_frame s2 =
                      list_insert (upper_bound (cache_frame s1) (f, current_timestamp s2))
                        (f, current_timestamp s2) (cache_frame s1)))"
    by blast
  let ?t = "the (run (LRUKReplacer 7 2) ?cs)"
  have "fst (Evict ?t) = Some 1 \<and> current_timestamp (snd (Evict ?t)) = 2 \<and>
        new_frame (snd (Evict ?t)) = [2]"
    by (simp add: eval_defs)
  then have e: "fst (Evict s) = Some 1" "current_timestamp (snd (Evict s)) = 2"
    "new_frame (snd (Evict s)) = [2]"
    unfolding r option.sel by simp_all
  from e(1) have "Evict s = (Some 1, snd (Evict s))" by (cases "Evict s") simp
  moreover from c [of 1 "snd (Evict s)"] this e(2,3) obtain s2 where
    "RecordAccess (snd (Evict s)) 1 = (Returned, s2)" "recorded_cnt s2 1 = 1"
    "hist s2 1 = [3]" "evictable s2 1" "new_frame s2 = [1, 2]"
    by auto
  ultimately show ?thesis using r by blast
qed

text \<open>
  Claim C7 as stated fails for \<open>k = 1\<close>: after \<open>RecordAccess\<close> of frame 1, \<open>Evict\<close> (which
  returns 1) and \<open>RecordAccess\<close> of frame 1 again, \<open>new_frame\<close> is empty and the frame is in
  \<open>cache_frame\<close>.
\<close>

theorem reused_frame_skips_early_set_when_k_is_1:
  "fst (Evict (snd (RecordAccess (LRUKReplacer 7 1) 1))) = Some 1 \<and>
   fst (RecordAccess (snd (Evict (snd (RecordAccess (LRUKReplacer 7 1) 1)))) 1) = Returned \<and>
   new_frame (snd (RecordAccess (snd (Evict (snd (RecordAccess (LRUKReplacer 7 1) 1)))) 1)) = [] \<and>
   cache_frame (snd (RecordAccess (snd (Evict (snd (RecordAccess (LRUKReplacer 7 1) 1)))) 1))
     = [(1, 2)]"
  by (simp add: eval_defs)

subsection \<open>The order of the Stable Set\<close>

lemma rerank_position:
  assumes inv: "replacer_inv s" and nw: "current_timestamp s + 1 < 2 ^ 64"
    and r: "RecordAccess s f = (Returned, s')" and ge: "k_val s \<le> recorded_cnt s' f"
  shows "cache_frame s' =
           takeWhile (\<lambda>e. snd e \<le> hd (hist s' f)) (filter (\<lambda>e. fst e \<noteq> f) (cache_frame s)) @
           (f, hd (hist s' f)) #
           dropWhile (\<lambda>e. snd e \<le> hd (hist s' f)) (filter (\<lambda>e. fst e \<noteq> f) (cache_frame s))"
proof -
  from r have ok: "\<not> frame_too_large s f" by (auto simp: RecordAccess_def)
  from RecordAccess_inv_eq [OF inv nw ok] r have s': "s' = accessed s f" by simp
  from ge have "k_val s \<le> recorded_cnt s f + 1" by (simp add: s' accessed_fields)
  from accessed_lists_ge(3) [OF this] show ?thesis
    unfolding s' by (simp add: list_insert_upper_bound)
qed

text \<open>
  Claim C8: in every state reached by a sequence of calls \<open>cs\<close> (\<open>k \<ge> 1\<close>, no counter
  wrapped), with the logs \<open>accesses n k cs\<close> of the accesses made: a history is the last
  \<open>k\<close> entries of the log of its frame, strictly ascending and none beyond the clock;
  \<open>cache_frame\<close> holds the frames with at least \<open>k\<close> accesses, in strictly ascending order
  of its timestamps, and the timestamp of an entry is the front of the history of its
  frame, the tick of its Kth most recent access. A \<open>RecordAccess\<close> that leaves the frame
  with at least \<open>k\<close> accesses (the Kth access or a later one) advances the clock by one,
  makes the history the last \<open>k\<close> entries of the log with the new tick appended, and puts
  the entry of the frame, with the front of that history, behind every other entry whose
  timestamp is at most its own and before the first entry with a greater one; when the
  frame had an entry before, the new timestamp is greater than the old one. An entry
  with an equal timestamp would stay in front; timestamps being strictly ascending, no two
  entries of a reachable state have equal ones.
\<close>

theorem stable_set_sorted_by_kth_timestamp:
  assumes "1 \<le> k" and "length cs + 1 < 2 ^ 64"
  shows "\<exists>s. run (LRUKReplacer n k) cs = Some s \<and>
           (\<forall>f. sorted_wrt (<) (accesses n k cs f) \<and>
                (\<forall>x \<in> set (accesses n k cs f). x \<le> current_timestamp s) \<and>
                hist s f = drop (length (accesses n k cs f) - k) (accesses n k cs f)) \<and>
           (\<forall>f. f \<in> fst ` set (cache_frame s) \<longleftrightarrow> k \<le> length (accesses n k cs f)) \<and>
           sorted_wrt (<) (map snd (cache_frame s)) \<and>
           (\<forall>e \<in> set (cache_frame s).
              hist s (fst e) \<noteq> [] \<and> snd e = hd (hist s (fst e)) \<and>
              snd e = accesses n k cs (fst e) ! (length (accesses n k cs (fst e)) - k)) \<and>
           (\<forall>f s'. RecordAccess s f = (Returned, s') \<and> k \<le> recorded_cnt s' f \<longrightarrow>
              current_timestamp s' = current_timestamp s + 1 \<and>
              hist s' f = drop (length (accesses n k cs f) + 1 - k)
                            (accesses n k cs f @ [current_timestamp s']) \<and>
              (\<forall>t0. (f, t0) \<in> set (cache_frame s) \<longrightarrow> t0 < hd (hist s' f)) \<and>
              cache_frame s' =
                takeWhile (\<lambda>e. snd e \<le> hd (hist s' f))
                  (filter (\<lambda>e. fst e \<noteq> f) (cache_frame s)) @
                (f, hd (hist s' f)) #
                dropWhile (\<lambda>e. snd e \<le> hd (hist s' f))
                  (filter (\<lambda>e. fst e \<noteq> f) (cache_frame s)))"
proof -
  from assms(2) have l: "length cs < 2 ^ 64" by simp
  from reachable_log_inv [OF assms(1) l, of n] obtain s t where
    r: "run (LRUKReplacer n k) cs = Some s" and inv: "replacer_inv s"
    and li: "log_inv s (t, accesses n k cs)"
    and k: "k_val s = k" and tl: "current_timestamp s \<le> length cs"
    by blast
  let ?L = "accesses n k cs"
  from tl assms(2) have nw: "current_timestamp s + 1 < 2 ^ 64" by simp
  from inv have mc: "\<And>f. f \<in> fst ` set (cache_frame s) \<longleftrightarrow> k_val s \<le> recorded_cnt s f"
    unfolding replacer_inv_def by blast
  from li have cn: "\<And>f. recorded_cnt s f = length (?L f)"
    and a: "\<forall>f. sorted_wrt (<) (?L f) \<and> (\<forall>x \<in> set (?L f). x \<le> current_timestamp s) \<and>
                hist s f = drop (length (?L f) - k) (?L f)"
    unfolding log_inv_def k by simp_all
  have b: "\<forall>f. f \<in> fst ` set (cache_frame s) \<longleftrightarrow> k \<le> length (?L f)"
    using mc unfolding cn k by simp
  have c: "\<forall>e \<in> set (cache_frame s).
              hist s (fst e) \<noteq> [] \<and> snd e = hd (hist s (fst e)) \<and>
              snd e = ?L (fst e) ! (length (?L (fst e)) - k)"
    using cache_key_nth [OF inv li] unfolding k by blast
  have d: "current_timestamp s' = current_timestamp s + 1 \<and>
              hist s' f = drop (length (?L f) + 1 - k) (?L f @ [current_timestamp s']) \<and>
              (\<forall>t0. (f, t0) \<in> set (cache_frame s) \<longrightarrow> t0 < hd (hist s' f)) \<and>
              cache_frame s' =
                takeWhile (\<lambda>e. snd e \<le> hd (hist s' f))
                  (filter (\<lambda>e. fst e \<noteq> f) (cache_frame s)) @
                (f, hd (hist s' f)) #
                dropWhile (\<lambda>e. snd e \<le> hd (hist s' f))
                  (filter (\<lambda>e. fst e \<noteq> f) (cache_frame s))"
    if h: "RecordAccess s f = (Returned, s') \<and> k \<le> recorded_cnt s' f" for f s'
  proof -
    from h have ra: "RecordAccess s f = (Returned, s')" and ge: "k_val s \<le> recorded_cnt s' f"
      unfolding k by simp_all
    from rerank_key [OF inv li nw ra] rerank_position [OF inv nw ra ge]
    show ?thesis unfolding k by blast
  qed
  from r a b cache_keys_strict [OF inv li] c d show ?thesis by blast
qed

theorem stable_set_sorted_by_kth_timestamp_witness:
  "\<exists>s s'. run (LRUKReplacer 7 2)
             [CallRecordAccess 1, CallRecordAccess 2, CallRecordAccess 1, CallRecordAccess 2]
             = Some s \<and>
      accesses 7 2
             [CallRecordAccess 1, CallRecordAccess 2, CallRecordAccess 1, CallRecordAccess 2] 1
             = [1, 3] \<and>
      cache_frame s = [(1, 1), (2, 2)] \<and> RecordAccess s 1 = (Returned, s') \<and>
      current_timestamp s' = 5 \<and> hist s' 1 = [3, 5] \<and> cache_frame s' = [(2, 2), (1, 3)]"
proof -
  let ?cs = "[CallRecordAccess 1, CallRecordAccess 2, CallRecordAccess 1, CallRecordAccess 2]"
  have k: "1 \<le> (2::nat)" by simp
  have l: "length ?cs + 1 < 2 ^ 64" by simp
  from stable_set_sorted_by_kth_timestamp [OF k l, of 7] obtain s where
    r: "run (LRUKReplacer 7 2) ?cs = Some s"
    and c: "\<forall>f s'. RecordAccess s f = (Returned, s') \<and> 2 \<le> recorded_cnt s' f \<longrightarrow>
              current_timestamp s' = current_timestamp s + 1 \<and>
              hist s' f = drop (length (accesses 7 2 ?cs f) + 1 - 2)
                            (accesses 7 2 ?cs f @ [current_timestamp s']) \<and>
              (\<forall>t0. (f, t0) \<in> set (cache_frame s) \<longrightarrow> t0 < hd (hist s' f)) \<and>
              cache_frame s' =
                takeWhile (\<lambda>e. snd e \<le> hd (hist s' f))
                  (filter (\<lambda>e. fst e \<noteq> f) (cache_frame s)) @
                (f, hd (hist s' f)) #
                dropWhile (\<lambda>e. snd e \<le> hd (hist s' f))
                  (filter (\<lambda>e. fst e \<noteq> f) (cache_frame s))"
    by (elim exE conjE)
  let ?t = "the (run (LRUKReplacer 7 2) ?cs)"
  let ?s' = "snd (RecordAccess s 1)"
  have "cache_frame ?t = [(1, 1), (2, 2)] \<and> current_timestamp ?t = 4 \<and>
        fst (RecordAccess ?t 1) = Returned \<and>
        recorded_cnt (snd (RecordAccess ?t 1)) 1 = 3"
    by (simp add: eval_defs)
  then have e: "cache_frame s = [(1, 1), (2, 2)]" "current_timestamp s = 4"
    "fst (RecordAccess s 1) = Returned" "recorded_cnt ?s' 1 = 3"
    unfolding r option.sel by simp_all
  have a: "accesses 7 2 ?cs 1 = [1, 3]"
    by (simp add: accesses_def eval_defs)
  from e(3) have ra: "RecordAccess s 1 = (Returned, ?s')"
    by (cases "RecordAccess s 1") simp
  have p: "RecordAccess s 1 = (Returned, ?s') \<and> 2 \<le> recorded_cnt ?s' 1"
    by (rule conjI [OF ra]) (simp add: e(4))
  from c p have q: "current_timestamp ?s' = current_timestamp s + 1 \<and>
              hist ?s' 1 = drop (length (accesses 7 2 ?cs 1) + 1 - 2)
                            (accesses 7 2 ?cs 1 @ [current_timestamp ?s']) \<and>
              (\<forall>t0. (1, t0) \<in> set (cache_frame s) \<longrightarrow> t0 < hd (hist ?s' 1)) \<and>
              cache_frame ?s' =
                takeWhile (\<lambda>e. snd e \<le> hd (hist ?s' 1))
                  (filter (\<lambda>e. fst e \<noteq> 1) (cache_frame s)) @
                (1, hd (hist ?s' 1)) #
                dropWhile (\<lambda>e. snd e \<le> hd (hist ?s' 1))
                  (filter (\<lambda>e. fst e \<noteq> 1) (cache_frame s))"
    by blast
  from q have t5: "current_timestamp ?s' = 5" unfolding e(2) by simp
  from q have h: "hist ?s' 1 = [3, 5]" unfolding a t5 by simp
  from q have cf: "cache_frame ?s' = [(2, 2), (1, 3)]" unfolding e(1) h by simp
  from r a e(1) ra t5 h cf show ?thesis by blast
qed

subsection \<open>The other frames when a frame is retired\<close>

lemma retired_others:
  assumes inv: "replacer_inv s" and fv: "frames_valid s"
    and r: "Evict s = (Some f, s') \<or> Remove s f = (Returned, s')" and g: "g \<noteq> f"
  shows "hist s' g = hist s g \<and> recorded_cnt s' g = recorded_cnt s g \<and>
         evictable s' g = evictable s g \<and>
         new_frame s' = filter (\<lambda>y. y \<noteq> f) (new_frame s) \<and>
         cache_frame s' = filter (\<lambda>e. fst e \<noteq> f) (cache_frame s)"
proof -
  from retired_state [OF inv fv r]
  have "s' = s \<and> f \<notin> set (tracked s) \<or> s' = retired s f" by simp
  then show ?thesis
  proof
    assume a: "s' = s \<and> f \<notin> set (tracked s)"
    then have "filter (\<lambda>y. y \<noteq> f) (new_frame s) = new_frame s"
      "filter (\<lambda>e. fst e \<noteq> f) (cache_frame s) = cache_frame s"
      by (auto simp: set_tracked filter_id_conv)
    with a show ?thesis by simp
  next
    assume "s' = retired s f"
    with g show ?thesis by (simp add: retired_def)
  qed
qed

text \<open>
  Claim C9: in every state reached by a sequence of calls (\<open>k \<ge> 1\<close>, no counter wrapped),
  an \<open>Evict\<close> that returns \<open>f\<close> and a \<open>Remove\<close> of \<open>f\<close> that returns leave the history, the
  count and the evictable flag of every other frame \<open>g\<close> as they were, and leave in
  \<open>new_frame\<close> and in \<open>cache_frame\<close> the entries of the frames other than \<open>f\<close>, in the
  order they had.
\<close>

theorem retiring_leaves_other_frames:
  assumes "1 \<le> k" and "length cs < 2 ^ 64"
  shows "\<exists>s. run (LRUKReplacer n k) cs = Some s \<and>
           (\<forall>f g s'. (Evict s = (Some f, s') \<or> Remove s f = (Returned, s')) \<and> g \<noteq> f \<longrightarrow>
              hist s' g = hist s g \<and> recorded_cnt s' g = recorded_cnt s g \<and>
              evictable s' g = evictable s g \<and>
              new_frame s' = filter (\<lambda>y. y \<noteq> f) (new_frame s) \<and>
              cache_frame s' = filter (\<lambda>e. fst e \<noteq> f) (cache_frame s))"
proof -
  from reachable_inv [OF assms, of n] obtain s where
    r: "run (LRUKReplacer n k) cs = Some s" and inv: "replacer_inv s" and fv: "frames_valid s"
    by blast
  from r retired_others [OF inv fv] show ?thesis by blast
qed

theorem retiring_leaves_other_frames_witness:
  "\<exists>s s' s''. run (LRUKReplacer 7 2)
             [CallRecordAccess 1, CallRecordAccess 2, CallRecordAccess 3, CallRecordAccess 1,
              CallRecordAccess 4] = Some s \<and>
      new_frame s = [4, 3, 2] \<and> cache_frame s = [(1, 1)] \<and>
      Evict s = (Some 2, s') \<and> new_frame s' = [4, 3] \<and> cache_frame s' = [(1, 1)] \<and>
      hist s' 3 = hist s 3 \<and> recorded_cnt s' 3 = recorded_cnt s 3 \<and>
      evictable s' 3 = evictable s 3 \<and>
      Remove s 1 = (Returned, s'') \<and> new_frame s'' = [4, 3, 2] \<and> cache_frame s'' = [] \<and>
      hist s'' 3 = hist s 3"
proof -
  let ?cs = "[CallRecordAccess 1, CallRecordAccess 2, CallRecordAccess 3, CallRecordAccess 1,
              CallRecordAccess 4]"
  have k: "1 \<le> (2::nat)" by simp
  have l: "length ?cs < 2 ^ 64" by simp
  from retiring_leaves_other_frames [OF k l, of 7] obtain s where
    r: "run (LRUKReplacer 7 2) ?cs = Some s"
    and c: "\<And>f g s'. Evict s = (Some f, s') \<or> Remove s f = (Returned, s') \<Longrightarrow> g \<noteq> f \<Longrightarrow>
              hist s' g = hist s g \<and> recorded_cnt s' g = recorded_cnt s g \<and>
              evictable s' g = evictable s g \<and>
              new_frame s' = filter (\<lambda>y. y \<noteq> f) (new_frame s) \<and>
              cache_frame s' = filter (\<lambda>e. fst e \<noteq> f) (cache_frame s)"
    by blast
  let ?t = "the (run (LRUKReplacer 7 2) ?cs)"
  have "new_frame ?t = [4, 3, 2] \<and> cache_frame ?t = [(1, 1)] \<and> fst (Evict ?t) = Some 2 \<and>
        fst (Remove ?t 1) = Returned"
    by (simp add: eval_defs)
  then have e: "new_frame s = [4, 3, 2]" "cache_frame s = [(1, 1)]" "fst (Evict s) = Some 2"
    "fst (Remove s 1) = Returned"
    unfolding r option.sel by simp_all
  from e(3) have ev: "Evict s = (Some 2, snd (Evict s))" by (cases "Evict s") simp
  from e(4) have rm: "Remove s 1 = (Returned, snd (Remove s 1))" by (cases "Remove s 1") simp
  have n: "(3 :: frame_id_t) \<noteq> 2" "(3 :: frame_id_t) \<noteq> 1" by simp_all
  from c [OF disjI1 [OF ev] n(1)] e(1,2)
  have a: "new_frame (snd (Evict s)) = [4, 3]" "cache_frame (snd (Evict s)) = [(1, 1)]"
    "hist (snd (Evict s)) 3 = hist s 3" "recorded_cnt (snd (Evict s)) 3 = recorded_cnt s 3"
    "evictable (snd (Evict s)) 3 = evictable s 3"
    by simp_all
  from c [OF disjI2 [OF rm] n(2)] e(1,2)
  have b: "new_frame (snd (Remove s 1)) = [4, 3, 2]" "cache_frame (snd (Remove s 1)) = []"
    "hist (snd (Remove s 1)) 3 = hist s 3"
    by simp_all
  from r e(1,2) ev rm a b show ?thesis by blast
qed

end
